theory Spec2Isabelle
  imports Complex_Main
begin

section \<open>Strings\<close>

text \<open>
  Python strings are modelled as \<open>string\<close>. The two tests the crawler uses on
  them are \<^verbatim>\<open>s.startswith(p)\<close> and \<^verbatim>\<open>p in s\<close>.
\<close>

definition startswith :: "string \<Rightarrow> string \<Rightarrow> bool" where
  "startswith s p = (take (length p) s = p)"

fun contains :: "string \<Rightarrow> string \<Rightarrow> bool" where
  "contains p [] = (p = [])"
| "contains p (c # cs) = (startswith (c # cs) p \<or> contains p cs)"

section \<open>The downloader (crawler/downloader.py)\<close>

subsection \<open>Exceptions, responses and the network\<close>

text \<open>
  The \<^verbatim>\<open>Retry-After\<close> header of a response, as
  \<^verbatim>\<open>int(e.response.headers.get("Retry-After", "0"))\<close> sees it: absent,
  a text that \<^verbatim>\<open>int\<close> accepts, or a text on which it raises (an HTTP date,
  for instance).
\<close>

datatype retry_after_header = HeaderAbsent | HeaderInt int | HeaderBad

text \<open>
  The exceptions of the model. \<open>RequestException st ra\<close> is any
  \<^verbatim>\<open>requests.RequestException\<close>; \<open>st\<close> is the status code of the response
  attached to it (\<open>None\<close> when no response is attached, as for a timeout or a refused
  connection) and \<open>ra\<close> that response's \<^verbatim>\<open>Retry-After\<close> header.
  \<open>TypeError\<close> is what \<^verbatim>\<open>raise None\<close> raises; \<open>ValueError\<close> is what
  \<^verbatim>\<open>time.sleep\<close> raises on a negative duration and what
  \<^verbatim>\<open>urllib.parse.urljoin\<close> raises on an address it cannot split;
  \<open>OverflowError\<close> and \<open>OSError\<close> are what \<^verbatim>\<open>time.sleep\<close> raises on a
  duration that is too long; \<open>OtherError\<close> is any other exception that is not a
  \<^verbatim>\<open>RequestException\<close>.
\<close>

datatype exn =
    RequestException "int option" retry_after_header
  | TypeError
  | ValueError
  | OverflowError
  | OSError
  | OtherError

text \<open>
  What lines 139 to 147 compute from a Brotli-encoded payload: the decoded text, an
  \<^verbatim>\<open>ImportError\<close> (the \<^verbatim>\<open>brotli\<close> module is not installed), or any
  other exception of the decompression or the decoding.
\<close>

datatype brotli_result = BrotliText string | BrotliImportError | BrotliError

text \<open>
  A response, reduced to what \<^verbatim>\<open>download\<close> reads: the status code, the
  \<^verbatim>\<open>Retry-After\<close> header, the lower-cased \<^verbatim>\<open>Content-Encoding\<close> header
  (empty when absent), the outcome of the Brotli decoding of its content,
  \<^verbatim>\<open>response.text\<close>, and the content decoded with
  \<^verbatim>\<open>response.apparent_encoding\<close> (\<open>None\<close> when the apparent encoding is empty
  or the decoding raises, which the bare \<^verbatim>\<open>except: pass\<close> swallows).
\<close>

record response =
  status_code :: int
  retry_after :: retry_after_header
  content_encoding :: string
  brotli :: brotli_result
  body :: string
  apparent :: "string option"

datatype get_result = GetRaises exn | GetResponse response

text \<open>
  The world outside the program: the \<open>n\<close>-th \<^verbatim>\<open>session.get\<close> of a run
  answers \<open>net_reply n\<close> after \<open>net_dur n\<close> seconds, the \<open>n\<close>-th call of
  \<^verbatim>\<open>random.random()\<close> returns \<open>rnd n\<close>, and \<open>sleep_max\<close> is the longest
  sleep, in seconds, that the operating system accepts.
\<close>

record network =
  net_reply :: "nat \<Rightarrow> get_result"
  net_dur :: "nat \<Rightarrow> real"
  rnd :: "nat \<Rightarrow> real"
  sleep_max :: real

text \<open>The configuration of a \<^verbatim>\<open>Downloader\<close>, as \<^verbatim>\<open>__init__\<close> stores it.\<close>

record downloader =
  base_url :: string
  retry_times :: int
  retry_delay :: real
  base_interval :: real
  interval_jitter :: real

text \<open>
  The mutable state: the field \<^verbatim>\<open>_last_request_ts\<close>, the monotonic clock, the
  requests sent so far (each with its address and the clock when it was sent), and the
  number of random draws made so far. Times are exact reals, in seconds.
\<close>

record dl_state =
  last_request_ts :: real
  clock :: real
  requests :: "(string \<times> real) list"
  draws :: nat

subsection \<open>Sleeping and pacing\<close>

text \<open>
  \<^verbatim>\<open>time.sleep(d)\<close> first converts the duration to a signed 64-bit count of
  nanoseconds and raises an \<^verbatim>\<open>OverflowError\<close> when it does not fit, which is
  so from about \<open>9.22e9\<close> seconds on; then it raises a \<^verbatim>\<open>ValueError\<close> on a
  negative duration; then it asks the operating system, and raises an
  \<^verbatim>\<open>OSError\<close> when the system refuses the duration. Else the clock advances
  by \<open>d\<close>.
\<close>

definition time_max :: real where
  "time_max = (2 ^ 63 - 1) / 10 ^ 9"

definition sleep :: "network \<Rightarrow> real \<Rightarrow> dl_state \<Rightarrow> exn + dl_state" where
  "sleep N d s =
     (if time_max < \<bar>d\<bar> then Inl OverflowError
      else if d < 0 then Inl ValueError
      else if sleep_max N < d then Inl OSError
      else Inr (s\<lparr>clock := clock s + d\<rparr>))"

text \<open>\<^verbatim>\<open>random.uniform(a, b)\<close> is \<^verbatim>\<open>a + (b - a) * random()\<close>.\<close>

definition uniform :: "network \<Rightarrow> nat \<Rightarrow> real \<Rightarrow> real \<Rightarrow> real" where
  "uniform N n a b = a + (b - a) * rnd N n"

text \<open>
  \<^verbatim>\<open>_sleep_for_rate_limit\<close> (lines 85 to 95). It returns nothing; an exception
  of \<^verbatim>\<open>time.sleep\<close> leaves it.
\<close>

definition sleep_for_rate_limit :: "network \<Rightarrow> downloader \<Rightarrow> dl_state \<Rightarrow> (exn + unit) \<times> dl_state" where
  "sleep_for_rate_limit N d s =
     (let now = clock s in
      if last_request_ts s \<le> 0 then (Inr (), s)
      else
        let interval = base_interval d + uniform N (draws s) 0 (interval_jitter d);
            s1 = s\<lparr>draws := Suc (draws s)\<rparr>;
            elapsed = now - last_request_ts s
        in if elapsed < interval
           then (case sleep N (interval - elapsed) s1 of
                   Inl x \<Rightarrow> (Inl x, s1)
                 | Inr s2 \<Rightarrow> (Inr (), s2))
           else (Inr (), s1))"

subsection \<open>One request\<close>

text \<open>\<^verbatim>\<open>session.get(url, ...)\<close>: the request is logged, the network answers.\<close>

definition session_get :: "network \<Rightarrow> string \<Rightarrow> dl_state \<Rightarrow> get_result \<times> dl_state" where
  "session_get N u s =
     (let n = length (requests s)
      in (net_reply N n, s\<lparr>requests := requests s @ [(u, clock s)], clock := clock s + net_dur N n\<rparr>))"

text \<open>
  \<^verbatim>\<open>response.raise_for_status()\<close> of the requests library: a status from 400 to 599
  raises an \<^verbatim>\<open>HTTPError\<close> (a \<^verbatim>\<open>RequestException\<close>) carrying the response.
\<close>

definition raise_for_status :: "get_result \<Rightarrow> exn + response" where
  "raise_for_status g =
     (case g of
        GetRaises x \<Rightarrow> Inl x
      | GetResponse r \<Rightarrow>
          if 400 \<le> status_code r \<and> status_code r < 600
          then Inl (RequestException (Some (status_code r)) (retry_after r))
          else Inr r)"

text \<open>
  Lines 184 to 198, after \<^verbatim>\<open>text_content\<close> is set. A response of the requests
  library has no attribute \<^verbatim>\<open>_encoding_set\<close>, so the test of line 185 holds for
  every response: the text is decoded again with the apparent encoding unless the first
  response was Brotli-encoded. Then the completion time is recorded and the text returned.
\<close>

definition finish :: "response \<Rightarrow> string \<Rightarrow> string \<Rightarrow> dl_state \<Rightarrow> (exn + string) \<times> dl_state" where
  "finish r enc text_content s =
     (let text_content' =
            (if \<not> contains ''br'' enc
             then (case apparent r of Some t \<Rightarrow> t | None \<Rightarrow> text_content)
             else text_content)
      in (Inr text_content', s\<lparr>last_request_ts := clock s\<rparr>))"

text \<open>
  The body of the \<^verbatim>\<open>try\<close> (lines 118 to 198): pacing, the request, the status
  check and the content handling. Both handlers of a failed Brotli decoding send the
  request once more, without \<^verbatim>\<open>Accept-Encoding\<close>. The warnings printed on the way
  change nothing and are left out, as is the choice of the \<^verbatim>\<open>User-Agent\<close>;
  \<^verbatim>\<open>isinstance(text_content, str)\<close> holds on every path.
\<close>

definition try_body :: "network \<Rightarrow> downloader \<Rightarrow> string \<Rightarrow> dl_state \<Rightarrow> (exn + string) \<times> dl_state" where
  "try_body N d u s0 =
     (case sleep_for_rate_limit N d s0 of
        (Inl x, s1) \<Rightarrow> (Inl x, s1)
      | (Inr paced, s1) \<Rightarrow>
          (let (g, s2) = session_get N u s1
           in (case raise_for_status g of
                 Inl x \<Rightarrow> (Inl x, s2)
               | Inr r \<Rightarrow>
                   (let enc = content_encoding r in
                    if enc \<noteq> [] \<and> contains ''br'' enc then
                      (case brotli r of
                         BrotliText t \<Rightarrow> finish r enc t s2
                       | _ \<Rightarrow>
                           (let (g', s3) = session_get N u s2
                            in (case raise_for_status g' of
                                  Inl x \<Rightarrow> (Inl x, s3)
                                | Inr r' \<Rightarrow> finish r' enc (body r') s3)))
                    else finish r enc (body r) s2))))"

subsection \<open>The retry loop\<close>

text \<open>
  The \<^verbatim>\<open>Retry-After\<close> value of the handler (lines 206 to 210): zero when the header
  is absent or is not an integer.
\<close>

definition retry_after_value :: "retry_after_header \<Rightarrow> int" where
  "retry_after_value h = (case h of HeaderInt n \<Rightarrow> n | _ \<Rightarrow> 0)"

text \<open>
  \<open>attempts N d u n attempt last_exception s\<close> runs the last \<open>n\<close> iterations of
  \<^verbatim>\<open>for attempt in range(self.retry_times)\<close>, the loop variable being at
  \<open>attempt\<close> and \<^verbatim>\<open>last_exception\<close> at \<open>last_exception\<close>. After the loop comes
  \<^verbatim>\<open>raise last_exception\<close>; raising \<^verbatim>\<open>None\<close> is a \<^verbatim>\<open>TypeError\<close>.
  Only a \<^verbatim>\<open>RequestException\<close> is caught; an exception of \<^verbatim>\<open>time.sleep\<close>
  in the handler leaves \<^verbatim>\<open>download\<close>.
\<close>

fun attempts ::
  "network \<Rightarrow> downloader \<Rightarrow> string \<Rightarrow> nat \<Rightarrow> nat \<Rightarrow> exn option \<Rightarrow> dl_state \<Rightarrow> (exn + string) \<times> dl_state"
where
  "attempts N d u 0 attempt last_exception s =
     (case last_exception of None \<Rightarrow> (Inl TypeError, s) | Some x \<Rightarrow> (Inl x, s))"
| "attempts N d u (Suc n) attempt last_exception s =
     (case try_body N d u s of
        (Inr text_content, s') \<Rightarrow> (Inr text_content, s')
      | (Inl (RequestException st ra), s') \<Rightarrow>
          if st = Some 429 then
            let wait_time = max (real_of_int (retry_after_value ra))
                                (retry_delay d * (real attempt + 1) * 3)
            in (case sleep N wait_time s' of
                  Inl x \<Rightarrow> (Inl x, s')
                | Inr s'' \<Rightarrow> attempts N d u n (Suc attempt) (Some (RequestException st ra)) s'')
          else if int attempt < retry_times d - 1 then
            (case sleep N (retry_delay d * (real attempt + 1)) s' of
               Inl x \<Rightarrow> (Inl x, s')
             | Inr s'' \<Rightarrow> attempts N d u n (Suc attempt) (Some (RequestException st ra)) s'')
          else (Inl (RequestException st ra), s')
      | (Inl x, s') \<Rightarrow> (Inl x, s'))"

text \<open>
  \<^verbatim>\<open>Downloader.download\<close>. \<open>uj\<close> is \<^verbatim>\<open>urllib.parse.urljoin\<close>, a function
  of the standard library: \<open>uj base u\<close> is the joined address, or the exception that
  \<^verbatim>\<open>urljoin(base, u)\<close> raises (a \<^verbatim>\<open>ValueError\<close> on \<^verbatim>\<open>//[\<close>, for
  instance). The join of lines 112 and 113 stands before the loop and outside every
  \<^verbatim>\<open>try\<close>: its exception leaves \<^verbatim>\<open>download\<close>.
\<close>

type_synonym urljoin = "string \<Rightarrow> string \<Rightarrow> exn + string"

definition download ::
  "urljoin \<Rightarrow> network \<Rightarrow> downloader \<Rightarrow> string \<Rightarrow> dl_state \<Rightarrow> (exn + string) \<times> dl_state"
where
  "download uj N d u s =
     (case (if \<not> startswith u ''http'' then uj (base_url d) u else Inr u) of
        Inl x \<Rightarrow> (Inl x, s)
      | Inr u' \<Rightarrow> attempts N d u' (nat (retry_times d)) 0 None s)"

section \<open>The special-chapter resolver (crawler/special_chapter_resolver.py)\<close>

subsection \<open>The two regular expressions\<close>

text \<open>
  Characters are code points below 256. Among them \<^verbatim>\<open>\d\<close> matches the ten ASCII
  digits, and \<^verbatim>\<open>\s\<close> the characters on which \<^verbatim>\<open>str.isspace\<close> holds.
\<close>

definition is_digit :: "char \<Rightarrow> bool" where
  "is_digit c = (c \<in> set ''0123456789'')"

definition is_space :: "char \<Rightarrow> bool" where
  "is_space c =
     (c \<in> set [CHR 0x09, CHR 0x0A, CHR 0x0B, CHR 0x0C, CHR 0x0D, CHR 0x1C, CHR 0x1D,
                CHR 0x1E, CHR 0x1F, CHR 0x20, CHR 0x85, CHR 0xA0])"

text \<open>\<open>strip_prefix p s\<close> matches the literal \<open>p\<close> at the start of \<open>s\<close> and returns the rest.\<close>

fun strip_prefix :: "string \<Rightarrow> string \<Rightarrow> string option" where
  "strip_prefix [] s = Some s"
| "strip_prefix (p # ps) [] = None"
| "strip_prefix (p # ps) (c # cs) = (if p = c then strip_prefix ps cs else None)"

text \<open>
  \<^verbatim>\<open>(\d+)\<close> at the start of \<open>s\<close>: the longest run of digits, which must not be
  empty, and the rest. In both patterns the character that has to follow a greedy run is
  not of the run's class, so a shorter run never matches where the longest does not.
\<close>

definition digits1 :: "string \<Rightarrow> (string \<times> string) option" where
  "digits1 s =
     (let ds = takeWhile is_digit s
      in if ds = [] then None else Some (ds, dropWhile is_digit s))"

text \<open>
  \<^verbatim>\<open>CHAPTER_ID_PATTERN = re.compile(r"/novel/(\d+)/(\d+)(?:_\d+)?\.html")\<close>,
  matched at the start of \<open>s\<close>: the two groups.
\<close>

definition match_chapter_id :: "string \<Rightarrow> (string \<times> string) option" where
  "match_chapter_id s =
     (case strip_prefix ''/novel/'' s of
        None \<Rightarrow> None
      | Some r1 \<Rightarrow>
          (case digits1 r1 of
             None \<Rightarrow> None
           | Some (article, r2) \<Rightarrow>
               (case strip_prefix ''/'' r2 of
                  None \<Rightarrow> None
                | Some r3 \<Rightarrow>
                    (case digits1 r3 of
                       None \<Rightarrow> None
                     | Some (chap, r4) \<Rightarrow>
                         if (case strip_prefix ''_'' r4 of
                               None \<Rightarrow> False
                             | Some r5 \<Rightarrow>
                                 (case digits1 r5 of
                                    None \<Rightarrow> False
                                  | Some (pg, r6) \<Rightarrow> startswith r6 ''.html''))
                            \<or> startswith r4 ''.html''
                         then Some (article, chap)
                         else None))))"

text \<open>\<^verbatim>\<open>_extract_article_and_chapter\<close>: \<^verbatim>\<open>search\<close> takes the leftmost match.\<close>

fun extract_article_and_chapter :: "string \<Rightarrow> (string \<times> string) option" where
  "extract_article_and_chapter [] = None"
| "extract_article_and_chapter (c # cs) =
     (case match_chapter_id (c # cs) of
        Some ids \<Rightarrow> Some ids
      | None \<Rightarrow> extract_article_and_chapter cs)"

text \<open>
  \<^verbatim>\<open>NEXT_PAGE_VAR_PATTERN = re.compile(r'var\s+nextpage\s*=\s*"([^"]+)"')\<close>,
  matched at the start of \<open>s\<close>: the group.
\<close>

definition match_nextpage :: "string \<Rightarrow> string option" where
  "match_nextpage s =
     (case strip_prefix ''var'' s of
        None \<Rightarrow> None
      | Some r1 \<Rightarrow>
          if takeWhile is_space r1 = [] then None
          else
            (case strip_prefix ''nextpage'' (dropWhile is_space r1) of
               None \<Rightarrow> None
             | Some r2 \<Rightarrow>
                 (case strip_prefix ''='' (dropWhile is_space r2) of
                    None \<Rightarrow> None
                  | Some r3 \<Rightarrow>
                      (case strip_prefix [CHR 0x22] (dropWhile is_space r3) of
                         None \<Rightarrow> None
                       | Some r4 \<Rightarrow>
                           (let path = takeWhile (\<lambda>c. c \<noteq> CHR 0x22) r4
                            in if path \<noteq> [] \<and> startswith (dropWhile (\<lambda>c. c \<noteq> CHR 0x22) r4) [CHR 0x22]
                               then Some path
                               else None)))))"

fun search_nextpage :: "string \<Rightarrow> string option" where
  "search_nextpage [] = None"
| "search_nextpage (c # cs) =
     (case match_nextpage (c # cs) of
        Some path \<Rightarrow> Some path
      | None \<Rightarrow> search_nextpage cs)"

text \<open>\<^verbatim>\<open>"\n".join(xs)\<close>\<close>

fun join_lines :: "string list \<Rightarrow> string" where
  "join_lines [] = []"
| "join_lines [x] = x"
| "join_lines (x # y # ys) = x @ CHR 0x0A # join_lines (y # ys)"

text \<open>
  \<^verbatim>\<open>_extract_nextpage_path\<close>. \<open>scripts\<close> stands for the HTML parser of the
  BeautifulSoup library: \<open>scripts html\<close> is the list of
  \<^verbatim>\<open>sc.get_text() or ""\<close> over \<^verbatim>\<open>soup.find_all("script")\<close>. The parser
  is taken to return a list for every page.
\<close>

definition extract_nextpage_path :: "(string \<Rightarrow> string list) \<Rightarrow> string \<Rightarrow> string option" where
  "extract_nextpage_path scripts html =
     (let scripts_text = filter (contains ''nextpage'') (scripts html)
      in if scripts_text = [] then None else search_nextpage (join_lines scripts_text))"

subsection \<open>Following the pagination chain\<close>

text \<open>
  What the resolver needs of a \<^verbatim>\<open>Downloader\<close> is its method
  \<^verbatim>\<open>download\<close>: a function of the address and of the state of the world that
  returns the page or raises, and leaves a new state.
\<close>

type_synonym 'w fetch = "string \<Rightarrow> 'w \<Rightarrow> (exn + string) \<times> 'w"

text \<open>
  Lines 117 to 119: an address that does not start with \<^verbatim>\<open>http\<close> is joined to
  the base address. \<open>uj\<close> is \<^verbatim>\<open>urllib.parse.urljoin\<close>, which may raise.
\<close>

definition absolute :: "urljoin \<Rightarrow> string \<Rightarrow> string \<Rightarrow> exn + string" where
  "absolute uj base current_url =
     (if \<not> startswith current_url ''http'' then uj base current_url else Inr current_url)"

text \<open>
  \<open>follow_nextpage \<dots> n visited current_url w\<close> runs the last \<open>n\<close> iterations of
  \<^verbatim>\<open>for _ in range(max_hops)\<close> (lines 116 to 163); falling out of the loop
  returns \<^verbatim>\<open>None\<close> (lines 165 to 168). Every exception of the download is caught
  (lines 126 to 130); the two calls of \<^verbatim>\<open>urljoin\<close> (lines 119 and 159) stand
  outside the \<^verbatim>\<open>try\<close>, so that an exception of theirs leaves the function. The
  result is \<open>Inl e\<close> when the exception \<open>e\<close> leaves the function, \<open>Inr None\<close> when it
  returns \<^verbatim>\<open>None\<close>, and \<open>Inr (Some u)\<close> when it returns the address \<open>u\<close>. The
  messages printed on the way are left out.
\<close>

fun follow_nextpage ::
  "urljoin \<Rightarrow> (string \<Rightarrow> string list) \<Rightarrow> 'w fetch \<Rightarrow> string \<Rightarrow>
   string \<Rightarrow> string \<Rightarrow> nat \<Rightarrow> string set \<Rightarrow> string \<Rightarrow> 'w \<Rightarrow> (exn + string option) \<times> 'w"
where
  "follow_nextpage uj scripts dl base article_id chapter_base 0 visited current_url w = (Inr None, w)"
| "follow_nextpage uj scripts dl base article_id chapter_base (Suc n) visited current_url w =
     (case absolute uj base current_url of
        Inl x \<Rightarrow> (Inl x, w)
      | Inr full_url \<Rightarrow>
          if full_url \<in> visited then (Inr None, w)
          else
            (case dl full_url w of
               (Inl e, w') \<Rightarrow> (Inr None, w')
             | (Inr html, w') \<Rightarrow>
                 (case extract_nextpage_path scripts html of
                    None \<Rightarrow> (Inr None, w')
                  | Some next_path \<Rightarrow>
                      if next_path = [] then (Inr None, w')
                      else
                        (case extract_article_and_chapter next_path of
                           None \<Rightarrow> (Inr None, w')
                         | Some (article_id2, chapter2) \<Rightarrow>
                             if article_id2 \<noteq> article_id then (Inr None, w')
                             else if chapter2 = chapter_base then
                               follow_nextpage uj scripts dl base article_id chapter_base n
                                 (insert full_url visited) next_path w'
                             else
                               (case uj base next_path of
                                  Inl x \<Rightarrow> (Inl x, w')
                                | Inr resolved \<Rightarrow> (Inr (Some resolved), w'))))))"

text \<open>\<^verbatim>\<open>resolve_next_chapter_url\<close>; \<^verbatim>\<open>range(max_hops)\<close> is empty for a negative bound.\<close>

definition resolve_next_chapter_url ::
  "urljoin \<Rightarrow> (string \<Rightarrow> string list) \<Rightarrow> 'w fetch \<Rightarrow> string \<Rightarrow> int \<Rightarrow>
   string \<Rightarrow> 'w \<Rightarrow> (exn + string option) \<times> 'w"
where
  "resolve_next_chapter_url uj scripts dl base max_hops prev_chapter_url w =
     (case extract_article_and_chapter prev_chapter_url of
        None \<Rightarrow> (Inr None, w)
      | Some (article_id, chapter_base) \<Rightarrow>
          follow_nextpage uj scripts dl base article_id chapter_base (nat max_hops) {}
            prev_chapter_url w)"

subsection \<open>The book structure\<close>

text \<open>
  The dictionaries that the catalogue parser builds. \<open>original_url\<close> is \<open>None\<close> while
  the key is absent. A book owns its volumes and a volume its chapters: no dictionary
  stands at two places of the structure.
\<close>

record chapter_ref =
  index :: int
  title :: string
  url :: string
  needs_resolve :: bool
  original_url :: "string option"

record volume =
  volume_name :: string
  chapters :: "chapter_ref list"

record book_structure =
  book_id :: string
  volumes :: "volume list"

subsection \<open>The nearest resolved predecessor\<close>

text \<open>
  \<open>scan_back chs n\<close> is the inner loop of \<^verbatim>\<open>find_prev_normal_chapter\<close>,
  \<^verbatim>\<open>for c in range(start, -1, -1)\<close> with \<open>start = n - 1\<close>; \<open>scan_volumes vols n\<close>
  is its outer loop over the volumes before volume \<open>n\<close>, each scanned from its last
  chapter. The function is called at the positions the traversal enumerates, where every
  index read is in range.
\<close>

fun scan_back :: "chapter_ref list \<Rightarrow> nat \<Rightarrow> (nat \<times> chapter_ref) option" where
  "scan_back ch_list 0 = None"
| "scan_back ch_list (Suc c) =
     (if \<not> needs_resolve (ch_list ! c) then Some (c, ch_list ! c) else scan_back ch_list c)"

fun scan_volumes :: "volume list \<Rightarrow> nat \<Rightarrow> (nat \<times> nat \<times> chapter_ref) option" where
  "scan_volumes vols 0 = None"
| "scan_volumes vols (Suc v) =
     (case scan_back (chapters (vols ! v)) (length (chapters (vols ! v))) of
        Some (c, ch) \<Rightarrow> Some (v, c, ch)
      | None \<Rightarrow> scan_volumes vols v)"

definition find_prev_normal_chapter :: "volume list \<Rightarrow> nat \<Rightarrow> nat \<Rightarrow> (nat \<times> nat \<times> chapter_ref) option" where
  "find_prev_normal_chapter vols vol_idx ch_idx =
     (case scan_back (chapters (vols ! vol_idx)) ch_idx of
        Some (c, ch) \<Rightarrow> Some (vol_idx, c, ch)
      | None \<Rightarrow> scan_volumes vols vol_idx)"

subsection \<open>Resolving every placeholder\<close>

text \<open>The three assignments of lines 233 to 236.\<close>

definition mark_resolved :: "string \<Rightarrow> chapter_ref \<Rightarrow> chapter_ref" where
  "mark_resolved resolved_url ch =
     ch\<lparr>original_url := Some (url ch), url := resolved_url, needs_resolve := False\<rparr>"

definition set_chapter :: "volume list \<Rightarrow> nat \<Rightarrow> nat \<Rightarrow> chapter_ref \<Rightarrow> volume list" where
  "set_chapter vols vi ci ch =
     vols[vi := (vols ! vi)\<lparr>chapters := (chapters (vols ! vi))[ci := ch]\<rparr>]"

text \<open>
  The body of the inner loop (lines 199 to 236) at volume \<open>vi\<close> and chapter \<open>ci\<close>, on the
  structure as it is when the traversal arrives there. The function has no
  \<^verbatim>\<open>try\<close>: an exception that leaves \<^verbatim>\<open>resolve_next_chapter_url\<close> leaves
  the loop body, the structure being as it was on arrival. The first component of the
  result is \<open>Inr ()\<close> when the body runs to its end and \<open>Inl e\<close> when the exception
  \<open>e\<close> leaves it.
\<close>

definition resolve_chapter ::
  "urljoin \<Rightarrow> (string \<Rightarrow> string list) \<Rightarrow> 'w fetch \<Rightarrow> string \<Rightarrow>
   nat \<Rightarrow> nat \<Rightarrow> volume list \<times> 'w \<Rightarrow> (exn + unit) \<times> volume list \<times> 'w"
where
  "resolve_chapter uj scripts dl base vi ci st =
     (let vols = fst st; w = snd st; ch = chapters (vols ! vi) ! ci
      in if \<not> needs_resolve ch then (Inr (), vols, w)
         else
           (case find_prev_normal_chapter vols vi ci of
              None \<Rightarrow> (Inr (), vols, w)
            | Some (pv, pc, prev_ch) \<Rightarrow>
                (let prev_url = url prev_ch
                 in if prev_url = [] \<or> prev_url = ''javascript:cid(0)'' then (Inr (), vols, w)
                    else
                      (case resolve_next_chapter_url uj scripts dl base 20 prev_url w of
                         (Inl e, w') \<Rightarrow> (Inl e, vols, w')
                       | (Inr None, w') \<Rightarrow> (Inr (), vols, w')
                       | (Inr (Some resolved_url), w') \<Rightarrow>
                           if resolved_url = [] then (Inr (), vols, w')
                           else (Inr (), set_chapter vols vi ci (mark_resolved resolved_url ch), w')))))"

text \<open>
  A \<^verbatim>\<open>for\<close> loop over the list \<open>xs\<close> whose body \<open>f\<close> may raise: the first exception
  ends the loop and leaves it, the state being as the body left it.
\<close>

fun for_each :: "('a \<Rightarrow> 's \<Rightarrow> (exn + unit) \<times> 's) \<Rightarrow> 'a list \<Rightarrow> 's \<Rightarrow> (exn + unit) \<times> 's" where
  "for_each f [] st = (Inr (), st)"
| "for_each f (x # xs) st =
     (case f x st of
        (Inl e, st') \<Rightarrow> (Inl e, st')
      | (Inr u, st') \<Rightarrow> for_each f xs st')"

text \<open>The two loops of lines 196 to 198, over the indexes that \<^verbatim>\<open>enumerate\<close> yields.\<close>

definition resolve_volume ::
  "urljoin \<Rightarrow> (string \<Rightarrow> string list) \<Rightarrow> 'w fetch \<Rightarrow> string \<Rightarrow>
   nat \<Rightarrow> volume list \<times> 'w \<Rightarrow> (exn + unit) \<times> volume list \<times> 'w"
where
  "resolve_volume uj scripts dl base vi st =
     for_each (resolve_chapter uj scripts dl base vi) [0..<length (chapters (fst st ! vi))] st"

definition resolve_volumes ::
  "urljoin \<Rightarrow> (string \<Rightarrow> string list) \<Rightarrow> 'w fetch \<Rightarrow> string \<Rightarrow>
   volume list \<times> 'w \<Rightarrow> (exn + unit) \<times> volume list \<times> 'w"
where
  "resolve_volumes uj scripts dl base st =
     for_each (resolve_volume uj scripts dl base) [0..<length (fst st)] st"

text \<open>
  \<^verbatim>\<open>resolve_all_special_chapters\<close>: the book is changed in place, also when an
  exception leaves the function. The result is \<open>Inr ()\<close> or the exception, the book and
  the state of the world.
\<close>

definition resolve_all_special_chapters ::
  "urljoin \<Rightarrow> (string \<Rightarrow> string list) \<Rightarrow> 'w fetch \<Rightarrow> string \<Rightarrow>
   book_structure \<Rightarrow> 'w \<Rightarrow> (exn + unit) \<times> book_structure \<times> 'w"
where
  "resolve_all_special_chapters uj scripts dl base book w =
     (let (x, vols', w') = resolve_volumes uj scripts dl base (volumes book, w)
      in (x, book\<lparr>volumes := vols'\<rparr>, w'))"

subsection \<open>Downloaders\<close>

text \<open>
  A downloader whose answers depend on the address alone, and one that also keeps the
  list of the addresses it was asked for.
\<close>

definition static :: "(string \<Rightarrow> exn + string) \<Rightarrow> 'w fetch" where
  "static page u w = (page u, w)"

definition logged :: "'w fetch \<Rightarrow> ('w \<times> string list) fetch" where
  "logged dl u st = (let (r, w') = dl u (fst st) in (r, (w', snd st @ [u])))"

section \<open>Notions used in the statements\<close>

subsection \<open>The chain of pages of one chapter\<close>

text \<open>
  On a site whose answers depend on the address alone, \<open>page\<close> giving the answer for an
  address: \<open>same_chapter_next \<dots> u\<close> is the next-page pointer of the page at \<open>u\<close> when
  \<open>u\<close> can be made absolute and that pointer stays in the chapter
  \<open>(article_id, chapter_base)\<close>, and
  \<open>pagination_chain \<dots> n u\<close> the address reached from \<open>u\<close> by following \<open>n\<close> such
  pointers.
\<close>

definition same_chapter_next ::
  "urljoin \<Rightarrow> (string \<Rightarrow> string list) \<Rightarrow> (string \<Rightarrow> exn + string) \<Rightarrow> string \<Rightarrow>
   string \<Rightarrow> string \<Rightarrow> string \<Rightarrow> string option"
where
  "same_chapter_next uj scripts page base article_id chapter_base u =
     (case absolute uj base u of
        Inl x \<Rightarrow> None
      | Inr full_url \<Rightarrow>
          (case page full_url of
             Inl e \<Rightarrow> None
           | Inr html \<Rightarrow>
               (case extract_nextpage_path scripts html of
                  None \<Rightarrow> None
                | Some p \<Rightarrow>
                    if p \<noteq> [] \<and> extract_article_and_chapter p = Some (article_id, chapter_base)
                    then Some p else None)))"

fun pagination_chain ::
  "urljoin \<Rightarrow> (string \<Rightarrow> string list) \<Rightarrow> (string \<Rightarrow> exn + string) \<Rightarrow> string \<Rightarrow>
   string \<Rightarrow> string \<Rightarrow> nat \<Rightarrow> string \<Rightarrow> string option"
where
  "pagination_chain uj scripts page base article_id chapter_base 0 u = Some u"
| "pagination_chain uj scripts page base article_id chapter_base (Suc n) u =
     (case same_chapter_next uj scripts page base article_id chapter_base u of
        None \<Rightarrow> None
      | Some p \<Rightarrow> pagination_chain uj scripts page base article_id chapter_base n p)"

subsection \<open>The traversal, position by position\<close>

text \<open>
  A position is a pair of a volume index and a chapter index. \<open>shape\<close> gives the number
  of chapters of each volume, \<open>positions\<close> the positions in the order of the traversal,
  \<open>pos_less\<close> that order, and \<open>resolve_at\<close> is the loop body at a position.
\<close>

definition chapter_at :: "volume list \<Rightarrow> nat \<times> nat \<Rightarrow> chapter_ref" where
  "chapter_at vols p = chapters (vols ! fst p) ! snd p"

definition shape :: "volume list \<Rightarrow> nat list" where
  "shape vols = map (\<lambda>v. length (chapters v)) vols"

definition positions :: "nat list \<Rightarrow> (nat \<times> nat) list" where
  "positions sh = concat (map (\<lambda>vi. map (Pair vi) [0..<sh ! vi]) [0..<length sh])"

definition pos_less :: "nat \<times> nat \<Rightarrow> nat \<times> nat \<Rightarrow> bool" where
  "pos_less p q = (fst p < fst q \<or> (fst p = fst q \<and> snd p < snd q))"

definition in_shape :: "nat list \<Rightarrow> nat \<times> nat \<Rightarrow> bool" where
  "in_shape sh p = (fst p < length sh \<and> snd p < sh ! fst p)"

definition resolve_at ::
  "urljoin \<Rightarrow> (string \<Rightarrow> string list) \<Rightarrow> 'w fetch \<Rightarrow> string \<Rightarrow>
   nat \<times> nat \<Rightarrow> volume list \<times> 'w \<Rightarrow> (exn + unit) \<times> volume list \<times> 'w"
where
  "resolve_at uj scripts dl base p = resolve_chapter uj scripts dl base (fst p) (snd p)"

text \<open>
  What one pass may do to a chapter: nothing, or, when it needed resolving, the three
  assignments with an address that is not empty.
\<close>

definition chapter_progress :: "chapter_ref \<Rightarrow> chapter_ref \<Rightarrow> bool" where
  "chapter_progress ch ch' =
     (ch' = ch \<or> (needs_resolve ch \<and> url ch' \<noteq> [] \<and> ch' = mark_resolved (url ch') ch))"

text \<open>
  Two structures agree up to a position when they have the same chapters in the volumes
  before it and, in its volume, up to it. \<open>resolution\<close> is what the loop body decides
  at a position: \<open>Inr (Some r)\<close> when it writes the address \<open>r\<close> there, \<open>Inr None\<close>
  when it leaves the chapter alone, \<open>Inl e\<close> when the exception \<open>e\<close> leaves it.
  \<open>arrival\<close> is the run of the loop bodies at the positions before a position: its
  state is the one in which the traversal arrives there.
\<close>

definition agree :: "nat \<times> nat \<Rightarrow> volume list \<Rightarrow> volume list \<Rightarrow> bool" where
  "agree p A B =
     ((\<forall>k < fst p. chapters (A ! k) = chapters (B ! k)) \<and>
      (\<forall>c \<le> snd p. chapters (A ! fst p) ! c = chapters (B ! fst p) ! c))"

definition resolution ::
  "urljoin \<Rightarrow> (string \<Rightarrow> string list) \<Rightarrow> 'w fetch \<Rightarrow> string \<Rightarrow>
   volume list \<Rightarrow> nat \<times> nat \<Rightarrow> 'w \<Rightarrow> exn + string option"
where
  "resolution uj scripts dl base vols p w =
     (if \<not> needs_resolve (chapter_at vols p) then Inr None
      else
        (case find_prev_normal_chapter vols (fst p) (snd p) of
           None \<Rightarrow> Inr None
         | Some (pv, pc, prev_ch) \<Rightarrow>
             if url prev_ch = [] \<or> url prev_ch = ''javascript:cid(0)'' then Inr None
             else
               (case fst (resolve_next_chapter_url uj scripts dl base 20 (url prev_ch) w) of
                  Inl e \<Rightarrow> Inl e
                | Inr None \<Rightarrow> Inr None
                | Inr (Some r) \<Rightarrow> if r = [] then Inr None else Inr (Some r))))"


section \<open>Scenarios\<close>

text \<open>
  Concrete inputs on which the theorems below are evaluated. \<open>site_join\<close> joins as
  \<^verbatim>\<open>urljoin\<close> does when the base is the address of the site's root and the second
  argument is of one of the three kinds the scenarios use. An address that starts with
  \<^verbatim>\<open>//\<close> names a network location, which ends at the next \<^verbatim>\<open>/\<close>,
  \<^verbatim>\<open>?\<close> or \<^verbatim>\<open>#\<close>: \<^verbatim>\<open>urlsplit\<close> raises
  \<^verbatim>\<open>ValueError("Invalid IPv6 URL")\<close> when one of the two square brackets occurs
  in it without the other, and else the address takes the scheme of the base. An
  absolute address without square brackets is returned as it is, and a path from the
  root is appended to the base.
\<close>

definition netloc :: "string \<Rightarrow> string" where
  "netloc u = takeWhile (\<lambda>c. c \<notin> set ''/?#'') (drop 2 u)"

definition site_join :: urljoin where
  "site_join base u =
     (if startswith u ''//'' then
        (if (CHR ''['' \<in> set (netloc u)) \<noteq> (CHR '']'' \<in> set (netloc u)) then Inl ValueError
         else Inr (takeWhile (\<lambda>c. c \<noteq> CHR '':'') base @ '':'' @ u))
      else if startswith u ''http'' then Inr u
      else Inr (base @ u))"

definition plain_response :: "string \<Rightarrow> response" where
  "plain_response t =
     \<lparr>status_code = 200, retry_after = HeaderAbsent, content_encoding = [],
      brotli = BrotliError, body = t, apparent = None\<rparr>"

text \<open>A network where every request finds the connection refused, after half a second.\<close>

definition failing_net :: network where
  "failing_net =
     \<lparr>net_reply = (\<lambda>n. GetRaises (RequestException None HeaderAbsent)),
      net_dur = (\<lambda>n. 1 / 2), rnd = (\<lambda>n. 0), sleep_max = 1000000\<rparr>"

text \<open>A network where every request is answered by a small page, after half a second.\<close>

definition plain_net :: network where
  "plain_net =
     \<lparr>net_reply = (\<lambda>n. GetResponse (plain_response ''<html></html>'')),
      net_dur = (\<lambda>n. 1 / 2), rnd = (\<lambda>n. 1 / 4), sleep_max = 1000000\<rparr>"

text \<open>
  A network whose first answer is Brotli-encoded, on a machine without the
  \<^verbatim>\<open>brotli\<close> module; later answers are plain.
\<close>

definition brotli_net :: network where
  "brotli_net =
     \<lparr>net_reply = (\<lambda>n. if n = 0
                        then GetResponse ((plain_response [])\<lparr>content_encoding := ''br'', brotli := BrotliImportError\<rparr>)
                        else GetResponse (plain_response ''<html></html>'')),
      net_dur = (\<lambda>n. 0), rnd = (\<lambda>n. 0), sleep_max = 1000000\<rparr>"

text \<open>
  A network whose first answer is \<^verbatim>\<open>429 Too Many Requests\<close> with
  \<^verbatim>\<open>Retry-After: 1\<close>; later answers are plain.
\<close>

definition limited_net :: network where
  "limited_net =
     \<lparr>net_reply = (\<lambda>n. if n = 0
                        then GetResponse ((plain_response [])\<lparr>status_code := 429, retry_after := HeaderInt 1\<rparr>)
                        else GetResponse (plain_response ''<html></html>'')),
      net_dur = (\<lambda>n. 0), rnd = (\<lambda>n. 0), sleep_max = 1000000\<rparr>"

text \<open>Downloaders with the default settings but for \<^verbatim>\<open>retry_times\<close>.\<close>

definition with_retries :: "int \<Rightarrow> downloader" where
  "with_retries k =
     \<lparr>base_url = ''https://www.linovelib.com'', retry_times = k, retry_delay = 1,
      base_interval = 1, interval_jitter = 1\<rparr>"

text \<open>A downloader that has sent nothing yet, the monotonic clock standing at 100 seconds.\<close>

definition fresh :: dl_state where
  "fresh = \<lparr>last_request_ts = 0, clock = 100, requests = [], draws = 0\<rparr>"

text \<open>
  An HTML parser that finds one script, the whole page, and a page that is nothing but
  the assignment of the next-page pointer.
\<close>

definition whole_page :: "string \<Rightarrow> string list" where
  "whole_page html = [html]"

definition nextpage_script :: "string \<Rightarrow> string" where
  "nextpage_script p = ''var nextpage='' @ [CHR 0x22] @ p @ [CHR 0x22] @ '';''"

text \<open>
  Book 4519 of the site: chapter 262081 has two pages, chapters 262082 and 262084 one
  page, chapter 262083 two pages; every page points to the next one, the page of chapter
  262084 does not exist yet.
\<close>

definition site4519 :: "string \<Rightarrow> exn + string" where
  "site4519 u =
     (if u = ''https://www.linovelib.com/novel/4519/262081.html''
        then Inr (nextpage_script ''/novel/4519/262081_2.html'')
      else if u = ''https://www.linovelib.com/novel/4519/262081_2.html''
        then Inr (nextpage_script ''/novel/4519/262082.html'')
      else if u = ''https://www.linovelib.com/novel/4519/262082.html''
        then Inr (nextpage_script ''/novel/4519/262083.html'')
      else if u = ''https://www.linovelib.com/novel/4519/262083.html''
        then Inr (nextpage_script ''/novel/4519/262083_2.html'')
      else if u = ''https://www.linovelib.com/novel/4519/262083_2.html''
        then Inr (nextpage_script ''/novel/4519/262084.html'')
      else Inl (RequestException (Some 404) HeaderAbsent))"

text \<open>A site where the second page of chapter 262081 points back to the first.\<close>

definition looping_site :: "string \<Rightarrow> exn + string" where
  "looping_site u =
     (if u = ''https://www.linovelib.com/novel/4519/262081.html''
        then Inr (nextpage_script ''/novel/4519/262081_2.html'')
      else if u = ''https://www.linovelib.com/novel/4519/262081_2.html''
        then Inr (nextpage_script ''/novel/4519/262081.html'')
      else Inl (RequestException (Some 404) HeaderAbsent))"

text \<open>Chapters as the catalogue parser lists them: with a placeholder, or with an address.\<close>

definition placeholder_chapter :: "int \<Rightarrow> string \<Rightarrow> chapter_ref" where
  "placeholder_chapter i t =
     \<lparr>index = i, title = t, url = ''javascript:cid(0)'', needs_resolve = True, original_url = None\<rparr>"

definition listed_chapter :: "int \<Rightarrow> string \<Rightarrow> string \<Rightarrow> chapter_ref" where
  "listed_chapter i t u =
     \<lparr>index = i, title = t, url = u, needs_resolve = False, original_url = None\<rparr>"

text \<open>
  Three books of the site: a listed chapter followed by one placeholder; by three
  placeholders; and a book whose very first chapter is a placeholder and whose second
  volume starts with one.
\<close>

definition small_book :: book_structure where
  "small_book =
     \<lparr>book_id = ''4519'',
      volumes = [\<lparr>volume_name = ''Volume 1'',
                  chapters = [listed_chapter 0 ''Chapter 1'' ''https://www.linovelib.com/novel/4519/262081.html'',
                              placeholder_chapter 1 ''Chapter 2'']\<rparr>]\<rparr>"

definition cascade_book :: book_structure where
  "cascade_book =
     \<lparr>book_id = ''4519'',
      volumes = [\<lparr>volume_name = ''Volume 1'',
                  chapters = [listed_chapter 0 ''Chapter 1'' ''https://www.linovelib.com/novel/4519/262081.html'',
                              placeholder_chapter 1 ''Chapter 2'',
                              placeholder_chapter 2 ''Chapter 3'',
                              placeholder_chapter 3 ''Chapter 4'']\<rparr>]\<rparr>"

definition headless_book :: book_structure where
  "headless_book =
     \<lparr>book_id = ''4519'',
      volumes = [\<lparr>volume_name = ''Volume 1'',
                  chapters = [placeholder_chapter 0 ''Prologue'',
                              listed_chapter 1 ''Chapter 1'' ''https://www.linovelib.com/novel/4519/262081.html'']\<rparr>,
                 \<lparr>volume_name = ''Volume 2'',
                  chapters = [placeholder_chapter 2 ''Chapter 2'']\<rparr>]\<rparr>"

text \<open>
  A network that refuses the first connection and then serves the two pages of chapter
  262081, in the order in which the resolver asks for them.
\<close>

definition outage_net :: network where
  "outage_net =
     \<lparr>net_reply = (\<lambda>n. if n = 0 then GetRaises (RequestException None HeaderAbsent)
                        else if n = 1 then GetResponse (plain_response (nextpage_script ''/novel/4519/262081_2.html''))
                        else GetResponse (plain_response (nextpage_script ''/novel/4519/262082.html''))),
      net_dur = (\<lambda>n. 0), rnd = (\<lambda>n. 0), sleep_max = 1000000\<rparr>"

text \<open>
  A network whose first answer is \<^verbatim>\<open>429 Too Many Requests\<close> with
  \<^verbatim>\<open>Retry-After: 10000000000\<close>; later answers are plain.
\<close>

definition flooded_net :: network where
  "flooded_net =
     \<lparr>net_reply = (\<lambda>n. if n = 0
                        then GetResponse ((plain_response [])\<lparr>status_code := 429, retry_after := HeaderInt 10000000000\<rparr>)
                        else GetResponse (plain_response ''<html></html>'')),
      net_dur = (\<lambda>n. 0), rnd = (\<lambda>n. 0), sleep_max = 1000000\<rparr>"




section \<open>Properties of the downloader\<close>

subsection \<open>The requests of one call\<close>

lemma requests_sleep: "sleep N t s = Inr s' \<Longrightarrow> requests s' = requests s"
  by (auto simp: sleep_def split: if_splits)

lemma requests_sleep_for_rate_limit [simp]:
  "requests (snd (sleep_for_rate_limit N d s)) = requests s"
  by (auto simp: sleep_for_rate_limit_def Let_def split: sum.splits dest: requests_sleep)

lemma requests_finish [simp]: "requests (snd (finish r enc t s)) = requests s"
  by (simp add: finish_def Let_def)

lemma try_body_requests_le:
  "length (requests (snd (try_body N d u s))) \<le> length (requests s) + 2"
proof -
  obtain x s1 where p: "sleep_for_rate_limit N d s = (x, s1)" by (cases "sleep_for_rate_limit N d s")
  have "requests s1 = requests s"
    using requests_sleep_for_rate_limit [of N d s] p by simp
  then show ?thesis
    using p
    by (auto simp: try_body_def Let_def session_get_def
             split: prod.splits sum.splits brotli_result.splits)
qed

lemma attempts_requests_le:
  "length (requests (snd (attempts N d u n a l s))) \<le> length (requests s) + 2 * n"
proof (induction n arbitrary: a l s)
  case 0
  show ?case by (simp split: option.splits)
next
  case (Suc n)
  obtain r s' where tb: "try_body N d u s = (r, s')" by (cases "try_body N d u s")
  have le: "length (requests s') \<le> length (requests s) + 2"
    using try_body_requests_le [of N d u s] tb by simp
  have step: "length (requests (snd (attempts N d u n a' l' s''))) \<le> length (requests s) + 2 * Suc n"
    if "requests s'' = requests s'" for a' l' s''
    using Suc.IH [of a' l' s''] le that by simp
  show ?case
    using tb le step
    by (auto simp: Let_def split: sum.splits exn.splits dest: requests_sleep)
qed

lemma try_body_requests_plain:
  assumes "\<forall>n r. net_reply N n = GetResponse r \<longrightarrow> \<not> contains ''br'' (content_encoding r)"
  shows "length (requests (snd (try_body N d u s))) \<le> length (requests s) + 1"
proof -
  obtain x s1 where p: "sleep_for_rate_limit N d s = (x, s1)" by (cases "sleep_for_rate_limit N d s")
  have "requests s1 = requests s"
    using requests_sleep_for_rate_limit [of N d s] p by simp
  then show ?thesis
    using assms p
    by (auto simp: try_body_def Let_def session_get_def raise_for_status_def
             split: prod.splits sum.splits get_result.splits if_splits)
qed

lemma attempts_requests_plain:
  assumes "\<forall>n r. net_reply N n = GetResponse r \<longrightarrow> \<not> contains ''br'' (content_encoding r)"
  shows "length (requests (snd (attempts N d u n a l s))) \<le> length (requests s) + n"
proof (induction n arbitrary: a l s)
  case 0
  show ?case by (simp split: option.splits)
next
  case (Suc n)
  obtain r s' where tb: "try_body N d u s = (r, s')" by (cases "try_body N d u s")
  have le: "length (requests s') \<le> length (requests s) + 1"
    using try_body_requests_plain [OF assms, of d u s] tb by simp
  have step: "length (requests (snd (attempts N d u n a' l' s''))) \<le> length (requests s) + Suc n"
    if "requests s'' = requests s'" for a' l' s''
    using Suc.IH [of a' l' s''] le that by simp
  show ?case
    using tb le step
    by (auto simp: Let_def split: sum.splits exn.splits dest: requests_sleep)
qed

text \<open>
  Claim C1, as stated: a call of \<^verbatim>\<open>download\<close> on a downloader with
  \<^verbatim>\<open>retry_times = k\<close>, \<open>k \<ge> 1\<close>, sends at most \<open>k\<close> GET requests. It fails: with
  \<open>k = 1\<close>, when the answer is Brotli-encoded and the \<^verbatim>\<open>brotli\<close> module is
  missing, the one attempt sends the request a second time (lines 149 to 156).
\<close>

theorem download_brotli_second_request:
  "retry_times (with_retries 1) = 1 \<and> requests fresh = [] \<and>
   length (requests (snd (download site_join brotli_net (with_retries 1) ''/novel/4519/262081.html'' fresh))) = 2"
  by (simp add: download_def with_retries_def fresh_def brotli_net_def plain_response_def
        site_join_def startswith_def try_body_def sleep_for_rate_limit_def session_get_def
        raise_for_status_def finish_def Let_def)

text \<open>
  Claim C1, amended: a call of \<^verbatim>\<open>download\<close> on a downloader with
  \<^verbatim>\<open>retry_times = k\<close> sends at most \<open>2k\<close> GET requests (an attempt sends the
  request a second time after a Brotli-encoded answer that could not be decoded), and at
  most \<open>k\<close> when no answer is Brotli-encoded.
\<close>

theorem download_request_bound:
  "length (requests (snd (download uj N d u s))) \<le> length (requests s) + 2 * nat (retry_times d) \<and>
   ((\<forall>n r. net_reply N n = GetResponse r \<longrightarrow> \<not> contains ''br'' (content_encoding r)) \<longrightarrow>
    length (requests (snd (download uj N d u s))) \<le> length (requests s) + nat (retry_times d))"
  using attempts_requests_le [of N d _ "nat (retry_times d)" 0 None s]
    attempts_requests_plain [of N d _ "nat (retry_times d)" 0 None s]
  by (simp add: download_def split: sum.splits)

text \<open>
  On the network that refuses every connection no answer is Brotli-encoded: a downloader
  with three tries sends three requests, and not one more.
\<close>

theorem download_request_bound_witness:
  "length (requests (snd (download site_join failing_net (with_retries 3) ''/novel/4519/262081.html'' fresh)))
     \<le> length (requests fresh) + 3 \<and>
   length (requests (snd (download site_join failing_net (with_retries 3) ''/novel/4519/262081.html'' fresh))) = 3"
proof -
  have plain: "\<forall>n r. net_reply failing_net n = GetResponse r \<longrightarrow> \<not> contains ''br'' (content_encoding r)"
    by (simp add: failing_net_def)
  have "length (requests (snd (download site_join failing_net (with_retries 3) ''/novel/4519/262081.html'' fresh)))
     \<le> length (requests fresh) + 3"
    using download_request_bound [of site_join failing_net "with_retries 3" "''/novel/4519/262081.html''" fresh] plain
    by (simp add: with_retries_def)
  moreover have "length (requests (snd (download site_join failing_net (with_retries 3) ''/novel/4519/262081.html'' fresh))) = 3"
    by (simp add: download_def with_retries_def fresh_def failing_net_def site_join_def
          startswith_def try_body_def sleep_for_rate_limit_def session_get_def
          raise_for_status_def sleep_def Let_def numeral_3_eq_3 time_max_def)
  ultimately show ?thesis by simp
qed

subsection \<open>The handler of a 429\<close>

text \<open>
  Claim C2, as stated: after a 429 that carries a \<^verbatim>\<open>Retry-After\<close> hint the
  downloader waits exactly the hinted time. It fails: with \<^verbatim>\<open>Retry-After: 1\<close>,
  \<^verbatim>\<open>retry_delay = 1\<close> and the first attempt, the handler sleeps
  \<open>max 1 (1 * 1 * 3) = 3\<close> seconds (line 211): the second request leaves three seconds
  after the first, which took no time.
\<close>

theorem download_429_hint_not_exact:
  "net_reply limited_net 0 = GetResponse ((plain_response [])\<lparr>status_code := 429, retry_after := HeaderInt 1\<rparr>) \<and>
   requests (snd (download site_join limited_net (with_retries 3) ''/novel/4519/262081.html'' fresh)) =
     [(''https://www.linovelib.com/novel/4519/262081.html'', 100),
      (''https://www.linovelib.com/novel/4519/262081.html'', 103)]"
  by (simp add: download_def with_retries_def fresh_def limited_net_def plain_response_def
        site_join_def startswith_def try_body_def sleep_for_rate_limit_def session_get_def
        raise_for_status_def finish_def Let_def numeral_3_eq_3 sleep_def retry_after_value_def time_max_def)

text \<open>
  Claim C2, amended: when an attempt fails with a 429, \<^verbatim>\<open>retry_delay\<close> is not
  negative, and neither the \<^verbatim>\<open>Retry-After\<close> hint nor
  \<open>retry_delay * (attempt + 1) * 3\<close> is longer than \<^verbatim>\<open>time.sleep\<close> and the
  operating system accept, the handler waits the larger of the hint and
  \<open>retry_delay * (attempt + 1) * 3\<close>, which is the latter when the hint is absent or is
  not an integer; the 429 is not raised from inside the loop: the loop goes on with its
  remaining iterations, the 429 being the last exception.
\<close>

theorem download_429_wait:
  assumes "try_body N d u s = (Inl (RequestException (Some 429) ra), s')"
    and "0 \<le> retry_delay d"
    and "real_of_int (retry_after_value ra) \<le> min time_max (sleep_max N)"
    and "retry_delay d * (real attempt + 1) * 3 \<le> min time_max (sleep_max N)"
  shows "\<exists>wait_time.
           wait_time = max (real_of_int (retry_after_value ra)) (retry_delay d * (real attempt + 1) * 3) \<and>
           (ra = HeaderAbsent \<or> ra = HeaderBad \<longrightarrow> wait_time = retry_delay d * (real attempt + 1) * 3) \<and>
           attempts N d u (Suc n) attempt last_exception s =
             attempts N d u n (Suc attempt) (Some (RequestException (Some 429) ra))
               (s'\<lparr>clock := clock s' + wait_time\<rparr>)"
proof -
  define wt where "wt = max (real_of_int (retry_after_value ra)) (retry_delay d * (real attempt + 1) * 3)"
  have nn: "0 \<le> retry_delay d * (real attempt + 1) * 3" using assms(2) by simp
  have absent: "ra = HeaderAbsent \<or> ra = HeaderBad \<longrightarrow> wt = retry_delay d * (real attempt + 1) * 3"
    using nn by (auto simp: retry_after_value_def wt_def)
  have "0 \<le> wt" using nn unfolding wt_def by linarith
  moreover have "wt \<le> time_max" "wt \<le> sleep_max N"
    using assms(3,4) unfolding wt_def by linarith+
  ultimately have sl: "sleep N wt s' = Inr (s'\<lparr>clock := clock s' + wt\<rparr>)"
    by (simp add: sleep_def)
  have "attempts N d u (Suc n) attempt last_exception s =
          attempts N d u n (Suc attempt) (Some (RequestException (Some 429) ra)) (s'\<lparr>clock := clock s' + wt\<rparr>)"
    using assms(1) sl by (simp add: Let_def flip: wt_def)
  with absent show ?thesis unfolding wt_def by blast
qed

text \<open>
  The first of three attempts on the network that answers 429 with
  \<^verbatim>\<open>Retry-After: 1\<close>: three seconds of sleep, and two attempts to go.
\<close>

theorem download_429_wait_witness:
  "\<exists>wait_time. wait_time = 3 \<and>
     attempts limited_net (with_retries 3) ''u'' 3 0 None fresh =
     attempts limited_net (with_retries 3) ''u'' 2 1 (Some (RequestException (Some 429) (HeaderInt 1)))
       (fresh\<lparr>requests := [(''u'', 100)], clock := 100 + wait_time\<rparr>)"
proof -
  have tb: "try_body limited_net (with_retries 3) ''u'' fresh =
      (Inl (RequestException (Some 429) (HeaderInt 1)), fresh\<lparr>requests := [(''u'', 100)]\<rparr>)"
    by (simp add: with_retries_def fresh_def limited_net_def plain_response_def try_body_def
          sleep_for_rate_limit_def session_get_def raise_for_status_def finish_def Let_def)
  have rd: "0 \<le> retry_delay (with_retries 3)" by (simp add: with_retries_def)
  have hint: "real_of_int (retry_after_value (HeaderInt 1)) \<le> min time_max (sleep_max limited_net)"
    by (simp add: retry_after_value_def time_max_def limited_net_def)
  have own: "retry_delay (with_retries 3) * (real 0 + 1) * 3 \<le> min time_max (sleep_max limited_net)"
    by (simp add: with_retries_def time_max_def limited_net_def)
  show ?thesis
    using download_429_wait [OF tb rd hint own, of 2 None]
    by (simp add: numeral_3_eq_3 retry_after_value_def with_retries_def fresh_def numeral_2_eq_2)
qed

text \<open>
  Beyond that bound the 429 ends the call: on the network that answers 429 with
  \<^verbatim>\<open>Retry-After: 10000000000\<close>, \<^verbatim>\<open>time.sleep\<close> raises in the handler,
  and \<^verbatim>\<open>download\<close> is left after one request although two tries remain.
\<close>

lemma download_429_overflow:
  "download site_join flooded_net (with_retries 3) ''/novel/4519/262081.html'' fresh =
     (Inl OverflowError, fresh\<lparr>requests := [(''https://www.linovelib.com/novel/4519/262081.html'', 100)]\<rparr>)"
  by (simp add: download_def with_retries_def fresh_def flooded_net_def plain_response_def
        site_join_def startswith_def try_body_def sleep_for_rate_limit_def session_get_def
        raise_for_status_def Let_def numeral_3_eq_3 sleep_def retry_after_value_def time_max_def)

subsection \<open>Pacing\<close>

lemma uniform_nonneg: "0 \<le> b \<Longrightarrow> 0 \<le> rnd N n \<Longrightarrow> 0 \<le> uniform N n 0 b"
  by (simp add: uniform_def)

lemma sleep_for_rate_limit_paced:
  assumes "0 < last_request_ts s" "0 \<le> interval_jitter d" "\<forall>n. 0 \<le> rnd N n"
  shows "sleep_for_rate_limit N d s = (Inr (), s1) \<Longrightarrow> last_request_ts s + base_interval d \<le> clock s1"
    and "last_request_ts (snd (sleep_for_rate_limit N d s)) = last_request_ts s"
proof -
  have "0 \<le> uniform N (draws s) 0 (interval_jitter d)"
    using assms by (simp add: uniform_nonneg)
  then show "sleep_for_rate_limit N d s = (Inr (), s1) \<Longrightarrow> last_request_ts s + base_interval d \<le> clock s1"
    using assms(1)
    by (auto simp: sleep_for_rate_limit_def Let_def sleep_def split: if_splits sum.splits)
  show "last_request_ts (snd (sleep_for_rate_limit N d s)) = last_request_ts s"
    by (auto simp: sleep_for_rate_limit_def Let_def sleep_def split: if_splits sum.splits)
qed

lemma try_body_paced:
  assumes "0 < last_request_ts s" "0 \<le> interval_jitter d" "\<forall>n. 0 \<le> rnd N n" "\<forall>n. 0 \<le> net_dur N n"
    and "try_body N d u s = (r, s')"
  shows "\<exists>new. requests s' = requests s @ new \<and>
           (\<forall>x \<in> set new. last_request_ts s + base_interval d \<le> snd x) \<and>
           (\<forall>e. r = Inl e \<longrightarrow> last_request_ts s' = last_request_ts s)"
proof -
  obtain x s1 where p: "sleep_for_rate_limit N d s = (x, s1)" by (cases "sleep_for_rate_limit N d s")
  have l1: "last_request_ts s1 = last_request_ts s"
    and r1: "requests s1 = requests s"
    using sleep_for_rate_limit_paced(2) [OF assms(1-3)] requests_sleep_for_rate_limit [of N d s] p
    by simp_all
  have d0: "0 \<le> net_dur N (length (requests s))"
    and d1: "0 \<le> net_dur N (Suc (length (requests s)))"
    using assms(4) by blast+
  show ?thesis
  proof (cases x)
    case (Inl e)
    then show ?thesis using assms(5) p l1 r1 by (auto simp: try_body_def)
  next
    case (Inr paced)
    then have "sleep_for_rate_limit N d s = (Inr (), s1)" using p by simp
    then have c1: "last_request_ts s + base_interval d \<le> clock s1"
      by (rule sleep_for_rate_limit_paced(1) [OF assms(1-3)])
    show ?thesis
      using assms(5) p Inr c1 l1 r1 d0 d1 unfolding try_body_def
      by (auto simp: Let_def session_get_def finish_def
               split: prod.splits sum.splits brotli_result.splits if_splits)
  qed
qed

lemma attempts_paced:
  assumes "0 \<le> interval_jitter d" "\<forall>n. 0 \<le> rnd N n" "\<forall>n. 0 \<le> net_dur N n"
  shows "0 < last_request_ts s \<Longrightarrow>
         \<exists>new. requests (snd (attempts N d u n a l s)) = requests s @ new \<and>
           (\<forall>x \<in> set new. last_request_ts s + base_interval d \<le> snd x)"
proof (induction n arbitrary: a l s)
  case 0
  show ?case by (simp split: option.splits)
next
  case (Suc n)
  obtain r s' where tb: "try_body N d u s = (r, s')" by (cases "try_body N d u s")
  from try_body_paced [OF Suc.prems assms tb]
  obtain new where new: "requests s' = requests s @ new"
      "\<forall>x \<in> set new. last_request_ts s + base_interval d \<le> snd x"
      "\<forall>e. r = Inl e \<longrightarrow> last_request_ts s' = last_request_ts s"
    by blast
  have here: "\<exists>new. requests s' = requests s @ new \<and>
           (\<forall>x \<in> set new. last_request_ts s + base_interval d \<le> snd x)"
    using new by blast
  have rest: "\<exists>new. requests (snd (attempts N d u n a' l' s'')) = requests s @ new \<and>
           (\<forall>x \<in> set new. last_request_ts s + base_interval d \<le> snd x)"
    if "sleep N t s' = Inr s''" "r = Inl e" for t s'' a' l' e
  proof -
    have s'': "requests s'' = requests s'" "last_request_ts s'' = last_request_ts s"
      using that new(3) by (auto simp: sleep_def split: if_splits)
    with Suc.prems have "0 < last_request_ts s''" by simp
    from Suc.IH [OF this, of a' l'] obtain new2 where
      "requests (snd (attempts N d u n a' l' s'')) = requests s'' @ new2"
      "\<forall>x \<in> set new2. last_request_ts s'' + base_interval d \<le> snd x" by blast
    then have "requests (snd (attempts N d u n a' l' s'')) = requests s @ (new @ new2)"
      "\<forall>x \<in> set (new @ new2). last_request_ts s + base_interval d \<le> snd x"
      using new s'' by auto
    then show ?thesis by blast
  qed
  show ?case
    using tb here rest
    by (auto simp: Let_def split: sum.splits exn.splits)
qed

lemma try_body_success_ts:
  "try_body N d u s = (Inr t, s') \<Longrightarrow> last_request_ts s' = clock s'"
  by (auto simp: try_body_def Let_def finish_def
           split: prod.splits sum.splits brotli_result.splits if_splits)

lemma attempts_success_ts:
  "attempts N d u n a l s = (Inr t, s1) \<Longrightarrow> last_request_ts s1 = clock s1"
proof (induction n arbitrary: a l s)
  case 0
  then show ?case by (simp split: option.splits)
next
  case (Suc n)
  obtain r s' where tb: "try_body N d u s = (r, s')" by (cases "try_body N d u s")
  show ?case
    using Suc.prems tb Suc.IH try_body_success_ts [of N d u s t s']
    by (auto simp: Let_def split: sum.splits exn.splits if_splits)
qed

text \<open>
  Claim C3: between the completion of any call and the first request of the next call
  at least \<^verbatim>\<open>base_interval\<close> elapses. The downloader documents this interval
  (\<^verbatim>\<open>base_interval\<close> is the base interval between adjacent requests,
  \<^verbatim>\<open>_last_request_ts\<close> the completion time of the previous request, and only
  the first request need not wait), and the code breaks it after a call that raised:
  \<^verbatim>\<open>_last_request_ts\<close> is written on the successful path only (line 196). On the
  network that refuses every connection, with one try, the first call raises at 100.5
  seconds and the request of the second call leaves at 100.5 seconds, although
  \<^verbatim>\<open>base_interval\<close> is one second.
\<close>

theorem download_no_gap_after_failure:
  "fst (download site_join failing_net (with_retries 1) ''/a'' fresh) = Inl (RequestException None HeaderAbsent) \<and>
   clock (snd (download site_join failing_net (with_retries 1) ''/a'' fresh)) = 100 + 1 / 2 \<and>
   requests (snd (download site_join failing_net (with_retries 1) ''/b''
                    (snd (download site_join failing_net (with_retries 1) ''/a'' fresh)))) =
     [(''https://www.linovelib.com/a'', 100), (''https://www.linovelib.com/b'', 100 + 1 / 2)] \<and>
   base_interval (with_retries 1) = 1"
  by (simp add: download_def with_retries_def fresh_def failing_net_def site_join_def
        startswith_def try_body_def sleep_for_rate_limit_def session_get_def
        raise_for_status_def finish_def Let_def)

text \<open>
  The successful path keeps the interval: when a call of \<^verbatim>\<open>download\<close> returns
  content, at a positive reading \<open>T\<close> of the monotonic clock, then \<open>T\<close> is recorded as
  the completion time, and every request of the next call on the same downloader,
  whatever time \<open>idle\<close> passes between the two calls, is sent at \<open>T + base_interval\<close>
  or later: a jitter drawn from \<open>[0, interval_jitter]\<close> only adds to the interval.
  Clock readings are exact, \<^verbatim>\<open>time.sleep\<close> sleeps the time it is asked for and
  no request takes negative time.
\<close>

lemma download_gap_after_success:
  assumes "download uj N d u s = (Inr t, s1)"
    and "0 < clock s1"
    and "0 \<le> interval_jitter d" and "\<forall>n. 0 \<le> rnd N n" and "\<forall>n. 0 \<le> net_dur N n"
    and "0 \<le> idle"
  shows "last_request_ts s1 = clock s1 \<and>
    (\<exists>new. requests (snd (download uj N d u' (s1\<lparr>clock := clock s1 + idle\<rparr>))) = requests s1 @ new \<and>
           (\<forall>x \<in> set new. clock s1 + base_interval d \<le> snd x))"
proof -
  have ts: "last_request_ts s1 = clock s1"
    using assms(1) attempts_success_ts by (auto simp: download_def split: sum.splits)
  define s2 where "s2 = s1\<lparr>clock := clock s1 + idle\<rparr>"
  have "0 < last_request_ts s2" using ts assms(2) by (simp add: s2_def)
  from attempts_paced [OF assms(3-5) this]
  have "\<exists>new. requests (snd (download uj N d u' s2)) = requests s2 @ new \<and>
           (\<forall>x \<in> set new. last_request_ts s2 + base_interval d \<le> snd x)"
    by (simp add: download_def split: sum.splits)
  then show ?thesis using ts by (simp add: s2_def)
qed

text \<open>
  On the network that answers every request after half a second: the first call returns
  at 100.5 seconds; the second call starts a quarter of a second later, draws a jitter of
  a quarter of a second and sends its request at 101.75 seconds, 1.25 seconds after the
  first call returned.
\<close>

lemma download_gap_after_success_example:
  "requests (snd (download site_join plain_net (with_retries 1) ''/b''
       ((snd (download site_join plain_net (with_retries 1) ''/a'' fresh))\<lparr>clock := 100 + 1 / 2 + 1 / 4\<rparr>))) =
     [(''https://www.linovelib.com/a'', 100), (''https://www.linovelib.com/b'', 100 + 1 / 2 + 5 / 4)]"
proof -
  have c1: "download site_join plain_net (with_retries 1) ''/a'' fresh =
     (Inr ''<html></html>'', \<lparr>last_request_ts = 100 + 1 / 2, clock = 100 + 1 / 2,
        requests = [(''https://www.linovelib.com/a'', 100)], draws = 0\<rparr>)"
    by (simp add: download_def with_retries_def fresh_def plain_net_def plain_response_def
          site_join_def startswith_def try_body_def sleep_for_rate_limit_def session_get_def
          raise_for_status_def finish_def Let_def)
  have "\<exists>new. requests (snd (download site_join plain_net (with_retries 1) ''/b''
           (\<lparr>last_request_ts = 100 + 1 / 2, clock = 100 + 1 / 2,
              requests = [(''https://www.linovelib.com/a'', 100)], draws = 0\<rparr>\<lparr>clock := 100 + 1 / 2 + 1 / 4\<rparr>))) =
          [(''https://www.linovelib.com/a'', 100)] @ new \<and>
          (\<forall>x \<in> set new. 100 + 1 / 2 + 1 \<le> snd x)"
    using download_gap_after_success [OF c1, of "1 / 4" "''/b''"]
    by (simp add: with_retries_def plain_net_def)
  then show ?thesis
    by (simp add: c1)
       (simp add: download_def with_retries_def plain_net_def plain_response_def
          site_join_def startswith_def try_body_def sleep_for_rate_limit_def session_get_def
          raise_for_status_def finish_def Let_def uniform_def sleep_def time_max_def)
qed

subsection \<open>No attempt at all\<close>

text \<open>
  Claim C10, as stated: on a downloader with \<^verbatim>\<open>retry_times \<le> 0\<close>, for every
  address, \<^verbatim>\<open>download\<close> reaches the final \<^verbatim>\<open>raise last_exception\<close>
  with \<^verbatim>\<open>last_exception\<close> still \<^verbatim>\<open>None\<close>. It fails on an address that
  \<^verbatim>\<open>urljoin\<close> cannot join: the join of line 113 stands before the loop, and on
  \<^verbatim>\<open>//[\<close> its \<^verbatim>\<open>ValueError\<close> leaves the call, which never comes to
  the final \<^verbatim>\<open>raise\<close> (there the call would end in a \<^verbatim>\<open>TypeError\<close>).
\<close>

theorem download_no_retries_bad_address:
  "retry_times (with_retries 0) \<le> 0 \<and>
   site_join (base_url (with_retries 0)) ''//['' = Inl ValueError \<and>
   download site_join plain_net (with_retries 0) ''//['' fresh = (Inl ValueError, fresh) \<and>
   attempts plain_net (with_retries 0) ''//['' (nat (retry_times (with_retries 0))) 0 None fresh =
     (Inl TypeError, fresh)"
  by (simp add: download_def site_join_def with_retries_def startswith_def netloc_def)

text \<open>
  Claim C10, amended: on a downloader with \<^verbatim>\<open>retry_times \<le> 0\<close> the loop body
  never runs: for every address \<^verbatim>\<open>download\<close> sends no request and leaves the
  state of the downloader as it was; and for every address that starts with
  \<^verbatim>\<open>http\<close> or that \<^verbatim>\<open>urljoin\<close> joins to the base address without
  raising, the call reaches the final \<^verbatim>\<open>raise last_exception\<close> with
  \<^verbatim>\<open>last_exception\<close> still \<^verbatim>\<open>None\<close>, and so fails with a
  \<^verbatim>\<open>TypeError\<close>, which is not a request exception and carries no cause.
\<close>

theorem download_no_retries:
  "retry_times d \<le> 0 \<Longrightarrow>
     snd (download uj N d u s) = s \<and>
     requests (snd (download uj N d u s)) = requests s \<and>
     (startswith u ''http'' \<or> (\<exists>u'. uj (base_url d) u = Inr u') \<longrightarrow>
        download uj N d u s = (Inl TypeError, s) \<and>
        (\<forall>st ra. fst (download uj N d u s) \<noteq> Inl (RequestException st ra)))"
  by (auto simp: download_def split: sum.splits)

text \<open>
  With no try allowed, a path from the root is joined to the base address and the call
  ends in the \<^verbatim>\<open>TypeError\<close>, nothing having been sent.
\<close>

theorem download_no_retries_witness:
  "site_join (base_url (with_retries 0)) ''/novel/4519/262081.html'' =
     Inr ''https://www.linovelib.com/novel/4519/262081.html'' \<and>
   download site_join plain_net (with_retries 0) ''/novel/4519/262081.html'' fresh = (Inl TypeError, fresh)"
proof -
  have k: "retry_times (with_retries 0) \<le> 0" by (simp add: with_retries_def)
  have j: "site_join (base_url (with_retries 0)) ''/novel/4519/262081.html'' =
     Inr ''https://www.linovelib.com/novel/4519/262081.html''"
    by (simp add: site_join_def with_retries_def startswith_def)
  have "download site_join plain_net (with_retries 0) ''/novel/4519/262081.html'' fresh = (Inl TypeError, fresh)"
    using download_no_retries [OF k, of site_join plain_net "''/novel/4519/262081.html''" fresh] j
    by blast
  then show ?thesis using j by blast
qed

section \<open>Properties of the resolver\<close>

subsection \<open>One resolution\<close>

lemma ids_second_page:
  "extract_article_and_chapter ''/novel/4519/262081_2.html'' = Some (''4519'', ''262081'')"
  by (simp add: match_chapter_id_def digits1_def is_digit_def startswith_def)

lemma ids_next_chapter:
  "extract_article_and_chapter ''/novel/4519/262082.html'' = Some (''4519'', ''262082'')"
  by (simp add: match_chapter_id_def digits1_def is_digit_def startswith_def)

lemma ids_first_page:
  "extract_article_and_chapter ''https://www.linovelib.com/novel/4519/262081.html'' = Some (''4519'', ''262081'')"
  by (simp add: match_chapter_id_def digits1_def is_digit_def startswith_def)

lemma nextpage_of_script:
  "extract_nextpage_path whole_page (nextpage_script ''/novel/4519/262081_2.html'') = Some ''/novel/4519/262081_2.html''"
  "extract_nextpage_path whole_page (nextpage_script ''/novel/4519/262082.html'') = Some ''/novel/4519/262082.html''"
  "extract_nextpage_path whole_page (nextpage_script ''/novel/4519/262081.html'') = Some ''/novel/4519/262081.html''"
  by (simp_all add: extract_nextpage_path_def whole_page_def nextpage_script_def startswith_def
        match_nextpage_def is_space_def)

text \<open>
  Claim C4: let the page at the address \<open>p1\<close>, of book 4519 and chapter 262081, point to
  \<^verbatim>\<open>/novel/4519/262081_2.html\<close>, a different address of the same chapter, and let
  that page point to \<^verbatim>\<open>/novel/4519/262082.html\<close>, of chapter 262082; \<open>a1\<close>,
  \<open>a2\<close> and \<open>a3\<close> are the three addresses made absolute. Then
  \<^verbatim>\<open>resolve_next_chapter_url\<close> on \<open>p1\<close>, with two hops or more allowed, returns
  \<open>a3\<close>, the third address joined to the base address, after these two downloads.
\<close>

theorem resolve_next_chapter_url_example:
  assumes "extract_article_and_chapter p1 = Some (''4519'', ''262081'')"
    and "absolute uj base p1 = Inr a1"
    and "dl a1 w0 = (Inr html1, w1)"
    and "extract_nextpage_path scripts html1 = Some ''/novel/4519/262081_2.html''"
    and "uj base ''/novel/4519/262081_2.html'' = Inr a2"
    and "dl a2 w1 = (Inr html2, w2)"
    and "extract_nextpage_path scripts html2 = Some ''/novel/4519/262082.html''"
    and "a2 \<noteq> a1"
    and "uj base ''/novel/4519/262082.html'' = Inr a3"
    and "2 \<le> max_hops"
  shows "resolve_next_chapter_url uj scripts dl base max_hops p1 w0 = (Inr (Some a3), w2)"
proof -
  obtain n where n: "nat max_hops = Suc (Suc n)"
  proof -
    have "2 \<le> nat max_hops" using assms(10) by simp
    then obtain k where "nat max_hops = 2 + k" using le_Suc_ex by blast
    then have "nat max_hops = Suc (Suc k)" by simp
    then show ?thesis using that by blast
  qed
  have abs2: "absolute uj base ''/novel/4519/262081_2.html'' = Inr a2"
    using assms(5) by (simp add: absolute_def startswith_def)
  show ?thesis
    using assms(1-4,6-9)
    by (simp add: resolve_next_chapter_url_def n abs2 ids_second_page ids_next_chapter
          del: extract_article_and_chapter.simps)
qed

text \<open>
  On the site of book 4519, with the default of twenty hops, the first page of chapter
  262081 resolves to the address of chapter 262082.
\<close>

theorem resolve_next_chapter_url_example_witness:
  "resolve_next_chapter_url site_join whole_page (static site4519) ''https://www.linovelib.com'' 20
     ''https://www.linovelib.com/novel/4519/262081.html'' () =
   (Inr (Some ''https://www.linovelib.com/novel/4519/262082.html''), ())"
proof -
  let ?a1 = "''https://www.linovelib.com/novel/4519/262081.html''"
  let ?a2 = "''https://www.linovelib.com/novel/4519/262081_2.html''"
  let ?a3 = "''https://www.linovelib.com/novel/4519/262082.html''"
  have 2: "absolute site_join ''https://www.linovelib.com'' ?a1 = Inr ?a1"
    by (simp add: absolute_def startswith_def)
  have 3: "static site4519 ?a1 () = (Inr (nextpage_script ''/novel/4519/262081_2.html''), ())"
    by (simp add: static_def site4519_def)
  have 5: "site_join ''https://www.linovelib.com'' ''/novel/4519/262081_2.html'' = Inr ?a2"
    by (simp add: site_join_def startswith_def)
  have 6: "static site4519 ?a2 () = (Inr (nextpage_script ''/novel/4519/262082.html''), ())"
    by (simp add: static_def site4519_def)
  have 8: "?a2 \<noteq> ?a1" by simp
  have 9: "site_join ''https://www.linovelib.com'' ''/novel/4519/262082.html'' = Inr ?a3"
    by (simp add: site_join_def startswith_def)
  have 10: "(2::int) \<le> 20" by simp
  show ?thesis
    by (rule resolve_next_chapter_url_example
          [where uj = site_join and dl = "static site4519" and scripts = whole_page,
           OF ids_first_page 2 3 nextpage_of_script(1) 5 6 nextpage_of_script(2) 8 9 10])
qed

subsection \<open>Cycles and the hop budget\<close>

lemma follow_nextpage_logged:
  "\<exists>new. snd (snd (follow_nextpage uj scripts (logged dl) base aid cb n V u (w, asked))) = asked @ new \<and>
         length new \<le> n \<and> distinct new \<and> set new \<inter> V = {}"
proof (induction n arbitrary: V u w asked)
  case 0
  show ?case by simp
next
  case (Suc n)
  show ?case
  proof (cases "absolute uj base u")
    case (Inl x)
    then show ?thesis by simp
  next
    case (Inr full)
    show ?thesis
    proof (cases "full \<in> V")
      case True
      then show ?thesis using Inr by simp
    next
      case False
      obtain r w' where d: "dl full w = (r, w')" by (cases "dl full w")
      have lgd: "logged dl full (w, asked) = (r, (w', asked @ [full]))"
        using d by (simp add: logged_def)
      have stop: "\<exists>new. asked @ [full] = asked @ new \<and> length new \<le> Suc n \<and> distinct new \<and> set new \<inter> V = {}"
        using False by simp
      have go: "\<exists>new. snd (snd (follow_nextpage uj scripts (logged dl) base aid cb n (insert full V) p (w', asked @ [full]))) = asked @ new \<and>
           length new \<le> Suc n \<and> distinct new \<and> set new \<inter> V = {}" for p
      proof -
        from Suc.IH [of "insert full V" p w' "asked @ [full]"] obtain new where
          new: "snd (snd (follow_nextpage uj scripts (logged dl) base aid cb n (insert full V) p (w', asked @ [full]))) = (asked @ [full]) @ new"
            "length new \<le> n" "distinct new" "set new \<inter> insert full V = {}" by blast
        then have "snd (snd (follow_nextpage uj scripts (logged dl) base aid cb n (insert full V) p (w', asked @ [full]))) = asked @ (full # new)"
          "length (full # new) \<le> Suc n" "distinct (full # new)" "set (full # new) \<inter> V = {}"
          using False by auto
        then show ?thesis by blast
      qed
      show ?thesis
        using False Inr lgd stop go
        by (simp split: sum.splits option.splits prod.splits)
    qed
  qed
qed

lemma follow_nextpage_cycle:
  assumes st: "\<forall>u w. fst (dl u w) = page u"
  shows "(\<exists>j b x. pagination_chain uj scripts page base aid cb j u = Some b \<and>
             absolute uj base b = Inr x \<and> x \<in> V) \<or>
         (\<exists>i j a b. i < j \<and> pagination_chain uj scripts page base aid cb i u = Some a \<and>
             pagination_chain uj scripts page base aid cb j u = Some b \<and> absolute uj base a = absolute uj base b)
         \<Longrightarrow> fst (follow_nextpage uj scripts dl base aid cb n V u w) = Inr None"
proof (induction n arbitrary: V u w)
  case 0
  show ?case by simp
next
  case (Suc n)
  let ?ch = "pagination_chain uj scripts page base aid cb"
  show ?case
  proof (cases "same_chapter_next uj scripts page base aid cb u")
    case None
    have nochain: "?ch (Suc j) u = None" for j using None by simp
    have no2: "\<not> (\<exists>i j a b. i < j \<and> ?ch i u = Some a \<and> ?ch j u = Some b \<and> absolute uj base a = absolute uj base b)"
    proof
      assume "\<exists>i j a b. i < j \<and> ?ch i u = Some a \<and> ?ch j u = Some b \<and> absolute uj base a = absolute uj base b"
      then obtain i j b where "i < j" "?ch j u = Some b" by blast
      then show False using nochain by (cases j) auto
    qed
    with Suc.prems obtain j b x where jb: "?ch j u = Some b" "absolute uj base b = Inr x" "x \<in> V"
      by blast
    have "j = 0" using jb(1) nochain by (cases j) auto
    with jb have "absolute uj base u = Inr x" "x \<in> V" by simp_all
    then show ?thesis by simp
  next
    case (Some p)
    then obtain full where full: "absolute uj base u = Inr full"
      by (auto simp: same_chapter_next_def split: sum.splits)
    show ?thesis
    proof (cases "full \<in> V")
      case True
      then show ?thesis using full by simp
    next
      case False
      obtain r w' where d: "dl full w = (r, w')" by (cases "dl full w")
      have r: "r = page full" using st d by (metis fst_conv)
      have step: "?ch (Suc j) u = ?ch j p" for j using Some by simp
      have bad: "(\<exists>j b x. ?ch j p = Some b \<and> absolute uj base b = Inr x \<and> x \<in> insert full V) \<or>
         (\<exists>i j a b. i < j \<and> ?ch i p = Some a \<and> ?ch j p = Some b \<and> absolute uj base a = absolute uj base b)"
        using Suc.prems
      proof
        assume "\<exists>j b x. ?ch j u = Some b \<and> absolute uj base b = Inr x \<and> x \<in> V"
        then obtain j b x where jb: "?ch j u = Some b" "absolute uj base b = Inr x" "x \<in> V" by blast
        then obtain j' where "j = Suc j'" using False full by (cases j) auto
        with jb step have "?ch j' p = Some b" by simp
        with jb(2,3) show ?thesis by blast
      next
        assume "\<exists>i j a b. i < j \<and> ?ch i u = Some a \<and> ?ch j u = Some b \<and> absolute uj base a = absolute uj base b"
        then obtain i j a b where c: "i < j" "?ch i u = Some a" "?ch j u = Some b"
          "absolute uj base a = absolute uj base b" by blast
        then obtain j' where j: "j = Suc j'" by (cases j) auto
        with c step have bj: "?ch j' p = Some b" by simp
        show ?thesis
        proof (cases i)
          case 0
          with c have "a = u" by simp
          with c(4) full have "absolute uj base b = Inr full" by simp
          with bj show ?thesis by blast
        next
          case (Suc i')
          with c step have "?ch i' p = Some a" "i' < j'" using j by simp_all
          with bj c(4) show ?thesis by blast
        qed
      qed
      have rec: "fst (follow_nextpage uj scripts dl base aid cb n (insert full V) p w') = Inr None"
        using Suc.IH [OF bad] .
      show ?thesis
        using False full d r Some rec
        by (auto simp: same_chapter_next_def
                 split: sum.splits option.splits prod.splits if_splits)
    qed
  qed
qed



text \<open>
  Claim C5: let the downloader answer by the address alone, and let the chain of
  same-chapter pointers that starts at \<open>start\<close> come back, at its \<open>j\<close>-th address, to
  an address it has been at before. Then \<^verbatim>\<open>resolve_next_chapter_url\<close> returns
  \<^verbatim>\<open>None\<close>, and raises nothing. It is a total function, and on any downloader
  its run makes at most \<^verbatim>\<open>max_hops\<close> downloads, of addresses that are all
  different.
\<close>

theorem resolve_next_chapter_url_cycle:
  assumes "\<forall>u w. fst (dl u w) = page u"
    and "extract_article_and_chapter start = Some (aid, cb)"
    and "i < j"
    and "pagination_chain uj scripts page base aid cb i start = Some a"
    and "pagination_chain uj scripts page base aid cb j start = Some b"
    and "absolute uj base a = absolute uj base b"
  shows "fst (resolve_next_chapter_url uj scripts dl base max_hops start w) = Inr None \<and>
         (\<exists>new. snd (snd (resolve_next_chapter_url uj scripts (logged dl) base max_hops start (w, asked))) = asked @ new \<and>
                length new \<le> nat max_hops \<and> distinct new)"
proof -
  have "fst (follow_nextpage uj scripts dl base aid cb (nat max_hops) {} start w) = Inr None"
    using follow_nextpage_cycle [OF assms(1), of uj scripts base aid cb start "{}" "nat max_hops" w] assms(3-6)
    by blast
  moreover have "\<exists>new. snd (snd (follow_nextpage uj scripts (logged dl) base aid cb (nat max_hops) {} start (w, asked))) = asked @ new \<and>
                length new \<le> nat max_hops \<and> distinct new"
    using follow_nextpage_logged [of uj scripts dl base aid cb "nat max_hops" "{}" start w asked] by blast
  ultimately show ?thesis
    using assms(2) by (simp add: resolve_next_chapter_url_def)
qed

text \<open>
  On the looping site the chain from the first page of chapter 262081 is back at that
  page after two pointers: the resolver gives up, having downloaded the two pages once
  each.
\<close>

theorem resolve_next_chapter_url_cycle_witness:
  "fst (resolve_next_chapter_url site_join whole_page (static looping_site) ''https://www.linovelib.com'' 20
          ''https://www.linovelib.com/novel/4519/262081.html'' ()) = Inr None \<and>
   snd (snd (resolve_next_chapter_url site_join whole_page (logged (static looping_site))
          ''https://www.linovelib.com'' 20 ''https://www.linovelib.com/novel/4519/262081.html'' ((), []))) =
     [''https://www.linovelib.com/novel/4519/262081.html'', ''https://www.linovelib.com/novel/4519/262081_2.html'']"
proof -
  let ?start = "''https://www.linovelib.com/novel/4519/262081.html''"
  let ?base = "''https://www.linovelib.com''"
  have 1: "\<forall>u w. fst (static looping_site u (w::unit)) = looping_site u"
    by (simp add: static_def)
  have 3: "(0::nat) < 2" by simp
  have 4: "pagination_chain site_join whole_page looping_site ?base ''4519'' ''262081'' 0 ?start = Some ?start"
    by simp
  have 5: "pagination_chain site_join whole_page looping_site ?base ''4519'' ''262081'' 2 ?start =
             Some ''/novel/4519/262081.html''"
    by code_simp
  have 6: "absolute site_join ?base ?start = absolute site_join ?base ''/novel/4519/262081.html''"
    by (simp add: absolute_def site_join_def startswith_def)
  have "fst (resolve_next_chapter_url site_join whole_page (static looping_site) ?base 20 ?start ()) = Inr None"
    using resolve_next_chapter_url_cycle [OF 1 ids_first_page 3 4 5 6, of 20 "()" "[]"] by blast
  moreover have "snd (snd (resolve_next_chapter_url site_join whole_page (logged (static looping_site))
          ?base 20 ?start ((), []))) =
     [''https://www.linovelib.com/novel/4519/262081.html'', ''https://www.linovelib.com/novel/4519/262081_2.html'']"
    by code_simp
  ultimately show ?thesis by simp
qed

subsection \<open>The traversal\<close>

lemma for_each_append:
  "for_each f (xs @ ys) st =
     (case for_each f xs st of
        (Inl e, st') \<Rightarrow> (Inl e, st')
      | (Inr u, st') \<Rightarrow> for_each f ys st')"
  by (induction xs arbitrary: st) (auto split: prod.splits sum.splits)

lemma for_each_map: "for_each f (map g xs) st = for_each (\<lambda>x. f (g x)) xs st"
  by (induction xs arbitrary: st) (auto split: prod.splits sum.splits)

lemma for_each_rel:
  assumes rfl: "\<And>st. R st st"
    and trn: "\<And>a b c. R a b \<Longrightarrow> R b c \<Longrightarrow> R a c"
    and stp: "\<And>x st. x \<in> set xs \<Longrightarrow> R st (snd (f x st))"
  shows "R st (snd (for_each f xs st))"
  using stp
proof (induction xs arbitrary: st)
  case Nil
  show ?case by (simp add: rfl)
next
  case (Cons x xs)
  obtain r st1 where f: "f x st = (r, st1)" by (cases "f x st")
  have one: "R st st1" using Cons.prems [of x st] f by simp
  show ?case
  proof (cases r)
    case (Inl e)
    then show ?thesis using f one by simp
  next
    case (Inr u)
    have "R st1 (snd (for_each f xs st1))"
      using Cons.IH Cons.prems by simp
    then show ?thesis using f Inr one trn by simp
  qed
qed

lemma shape_set_chapter [simp]: "shape (set_chapter vols vi ci ch) = shape vols"
proof (cases "vi < length vols")
  case True
  then show ?thesis
    by (simp add: shape_def set_chapter_def map_update) (metis list_update_id nth_map)
next
  case False
  then have "vols[vi := x] = vols" for x by (simp add: list_update_beyond)
  then show ?thesis by (simp add: shape_def set_chapter_def)
qed

lemma length_set_chapter [simp]: "length (set_chapter vols vi ci ch) = length vols"
  by (simp add: set_chapter_def)

lemma resolve_chapter_cases:
  "fst (snd (resolve_chapter uj scripts dl base vi ci st)) = fst st \<or>
   (needs_resolve (chapter_at (fst st) (vi, ci)) \<and>
    (\<exists>r. r \<noteq> [] \<and> fst (snd (resolve_chapter uj scripts dl base vi ci st)) =
        set_chapter (fst st) vi ci (mark_resolved r (chapter_at (fst st) (vi, ci)))))"
  by (auto simp: resolve_chapter_def Let_def chapter_at_def split: option.splits prod.splits sum.splits)



lemma shape_resolve_chapter [simp]:
  "shape (fst (snd (resolve_chapter uj scripts dl base vi ci st))) = shape (fst st)"
  using resolve_chapter_cases [of uj scripts dl base vi ci st] by auto

lemma shape_for_each_resolve_at [simp]:
  "shape (fst (snd (for_each (resolve_at uj scripts dl base) ps st))) = shape (fst st)"
  by (rule sym, rule for_each_rel [where R = "\<lambda>a b. shape (fst a) = shape (fst b)"])
     (simp_all add: resolve_at_def)


lemma resolve_volume_flat:
  "vi < length (fst st) \<Longrightarrow>
   resolve_volume uj scripts dl base vi st =
     for_each (resolve_at uj scripts dl base) (map (Pair vi) [0..<shape (fst st) ! vi]) st"
  by (simp add: resolve_volume_def for_each_map shape_def resolve_at_def)

lemma for_each_resolve_volume_flat:
  "\<forall>vi \<in> set vis. vi < length sh \<Longrightarrow> shape (fst st) = sh \<Longrightarrow>
   for_each (resolve_volume uj scripts dl base) vis st =
     for_each (resolve_at uj scripts dl base) (concat (map (\<lambda>vi. map (Pair vi) [0..<sh ! vi]) vis)) st"
proof (induction vis arbitrary: st)
  case Nil
  show ?case by simp
next
  case (Cons vi vis)
  have len: "length (fst st) = length sh" using Cons.prems(2) by (auto simp: shape_def)
  have vi: "vi < length (fst st)" using Cons.prems(1) len by simp
  obtain r st1 where one: "for_each (resolve_at uj scripts dl base) (map (Pair vi) [0..<sh ! vi]) st = (r, st1)"
    by (cases "for_each (resolve_at uj scripts dl base) (map (Pair vi) [0..<sh ! vi]) st")
  have rv: "resolve_volume uj scripts dl base vi st = (r, st1)"
    using resolve_volume_flat [OF vi, of uj scripts dl base] Cons.prems(2) one by simp
  have "shape (fst st1) = sh"
    using shape_for_each_resolve_at [of uj scripts dl base "map (Pair vi) [0..<sh ! vi]" st] one Cons.prems(2)
    by simp
  then have rest: "for_each (resolve_volume uj scripts dl base) vis st1 =
     for_each (resolve_at uj scripts dl base) (concat (map (\<lambda>vi. map (Pair vi) [0..<sh ! vi]) vis)) st1"
    using Cons.IH [of st1] Cons.prems(1) by simp
  show ?case
    using rv one rest by (cases r) (simp_all add: for_each_append)
qed

lemma resolve_volumes_flat:
  "resolve_volumes uj scripts dl base st =
     for_each (resolve_at uj scripts dl base) (positions (shape (fst st))) st"
  unfolding resolve_volumes_def positions_def
  by (rule trans [OF _ for_each_resolve_volume_flat [where sh = "shape (fst st)"]])
     (simp_all add: shape_def)

lemma chapter_progress_refl [simp]: "chapter_progress ch ch"
  by (simp add: chapter_progress_def)

lemma needs_resolve_mark_resolved [simp]: "\<not> needs_resolve (mark_resolved r ch)"
  by (simp add: mark_resolved_def)

lemma chapter_progress_trans:
  assumes "chapter_progress a b" and "chapter_progress b c"
  shows "chapter_progress a c"
proof (cases "b = a")
  case True
  with assms(2) show ?thesis by simp
next
  case False
  with assms(1) have b: "needs_resolve a" "url b \<noteq> []" "b = mark_resolved (url b) a"
    by (auto simp: chapter_progress_def)
  then have "\<not> needs_resolve b" by (metis needs_resolve_mark_resolved)
  with assms(2) have "c = b" by (auto simp: chapter_progress_def)
  with assms(1) show ?thesis by simp
qed

lemma chapter_progress_mark: "needs_resolve ch \<Longrightarrow> r \<noteq> [] \<Longrightarrow> chapter_progress ch (mark_resolved r ch)"
  by (simp add: chapter_progress_def mark_resolved_def)

lemma chapter_at_set_chapter:
  "chapter_at (set_chapter vols vi ci ch) q =
     (if q = (vi, ci) \<and> in_shape (shape vols) q then ch else chapter_at vols q)"
proof (cases "vi < length vols")
  case False
  then have "vols[vi := x] = vols" for x by (simp add: list_update_beyond)
  with False show ?thesis
    by (auto simp: set_chapter_def chapter_at_def in_shape_def shape_def)
next
  case True
  show ?thesis
  proof (cases "ci < length (chapters (vols ! vi))")
    case False
    then have "(chapters (vols ! vi))[ci := ch] = chapters (vols ! vi)"
      by (simp add: list_update_beyond)
    with True False show ?thesis
      by (auto simp: set_chapter_def chapter_at_def in_shape_def shape_def)
  next
    case inr: True
    show ?thesis
      using True inr
      by (cases q) (auto simp: set_chapter_def chapter_at_def in_shape_def shape_def nth_list_update)
  qed
qed

lemma volume_name_set_chapter [simp]:
  "volume_name (set_chapter vols vi ci ch ! vj) = volume_name (vols ! vj)"
proof (cases "vi < length vols")
  case False
  then have "vols[vi := x] = vols" for x by (simp add: list_update_beyond)
  then show ?thesis by (simp add: set_chapter_def)
next
  case True
  then show ?thesis by (simp add: set_chapter_def nth_list_update)
qed

lemma resolve_at_progress:
  "chapter_progress (chapter_at (fst st) q) (chapter_at (fst (snd (resolve_at uj scripts dl base p st))) q)"
proof -
  from resolve_chapter_cases [of uj scripts dl base "fst p" "snd p" st]
  show ?thesis
  proof
    assume "fst (snd (resolve_chapter uj scripts dl base (fst p) (snd p) st)) = fst st"
    then show ?thesis by (simp add: resolve_at_def)
  next
    assume "needs_resolve (chapter_at (fst st) (fst p, snd p)) \<and>
      (\<exists>r. r \<noteq> [] \<and> fst (snd (resolve_chapter uj scripts dl base (fst p) (snd p) st)) =
        set_chapter (fst st) (fst p) (snd p) (mark_resolved r (chapter_at (fst st) (fst p, snd p))))"
    then show ?thesis
      by (auto simp: resolve_at_def chapter_at_set_chapter chapter_progress_mark)
  qed
qed

lemma resolve_at_frame:
  "q \<noteq> p \<Longrightarrow> chapter_at (fst (snd (resolve_at uj scripts dl base p st))) q = chapter_at (fst st) q"
  using resolve_chapter_cases [of uj scripts dl base "fst p" "snd p" st]
  by (auto simp: resolve_at_def chapter_at_set_chapter)

lemma resolve_at_volume_name [simp]:
  "volume_name (fst (snd (resolve_at uj scripts dl base p st)) ! vj) = volume_name (fst st ! vj)"
  using resolve_chapter_cases [of uj scripts dl base "fst p" "snd p" st]
  by (auto simp: resolve_at_def)

lemma for_each_resolve_at_progress:
  "chapter_progress (chapter_at (fst st) q)
     (chapter_at (fst (snd (for_each (resolve_at uj scripts dl base) ps st))) q)"
  by (rule for_each_rel
        [where R = "\<lambda>a b. chapter_progress (chapter_at (fst a) q) (chapter_at (fst b) q)"])
     (simp_all add: resolve_at_progress chapter_progress_trans [of _ _ _])


lemma for_each_resolve_at_volume_name [simp]:
  "volume_name (fst (snd (for_each (resolve_at uj scripts dl base) ps st)) ! vj) = volume_name (fst st ! vj)"
  by (rule sym, rule for_each_rel [where R = "\<lambda>a b. volume_name (fst a ! vj) = volume_name (fst b ! vj)"])
     simp_all


lemma sorted_positions_aux:
  "n \<le> length sh \<Longrightarrow>
   sorted_wrt pos_less (concat (map (\<lambda>vi. map (Pair vi) [0..<sh ! vi]) [0..<n])) \<and>
   (\<forall>p \<in> set (concat (map (\<lambda>vi. map (Pair vi) [0..<sh ! vi]) [0..<n])). fst p < n \<and> in_shape sh p)"
proof (induction n)
  case 0
  show ?case by simp
next
  case (Suc n)
  define old where "old = concat (map (\<lambda>vi. map (Pair vi) [0..<sh ! vi]) [0..<n])"
  define new where "new = map (Pair n) [0..<sh ! n]"
  from Suc have old: "sorted_wrt pos_less old" "\<forall>p \<in> set old. fst p < n \<and> in_shape sh p"
    by (simp_all add: old_def)
  have "sorted_wrt (\<lambda>a b. pos_less (Pair n a) (Pair n b)) [0..<sh ! n]"
    by (rule sorted_wrt_mono_rel [OF _ sorted_wrt_upt]) (simp add: pos_less_def)
  then have new: "sorted_wrt pos_less new" by (simp add: sorted_wrt_map new_def)
  have inn: "\<forall>p \<in> set new. fst p = n \<and> in_shape sh p"
    using Suc.prems by (auto simp: in_shape_def new_def)
  have cross: "\<forall>p \<in> set old. \<forall>q \<in> set new. pos_less p q"
    using old(2) inn by (simp add: pos_less_def)
  have eq: "concat (map (\<lambda>vi. map (Pair vi) [0..<sh ! vi]) [0..<Suc n]) = old @ new"
    by (simp add: old_def new_def)
  have "sorted_wrt pos_less (old @ new)"
    using old(1) new cross by (simp add: sorted_wrt_append)
  moreover have "\<forall>p \<in> set (old @ new). fst p < Suc n \<and> in_shape sh p"
    using old(2) inn by (simp add: ball_Un less_Suc_eq)
  ultimately show ?case unfolding eq by simp
qed

lemma sorted_positions: "sorted_wrt pos_less (positions sh)"
  using sorted_positions_aux [of "length sh" sh] by (simp add: positions_def)

lemma positions_in_shape: "p \<in> set (positions sh) \<Longrightarrow> in_shape sh p"
  using sorted_positions_aux [of "length sh" sh] unfolding positions_def by blast




lemma agree_refl [simp]: "agree p A A"
  by (simp add: agree_def)

lemma agree_trans: "agree p A B \<Longrightarrow> agree p B C \<Longrightarrow> agree p A C"
  by (simp add: agree_def)

lemma scan_back_agree:
  "\<forall>k < c. chs ! k = chs' ! k \<Longrightarrow> scan_back chs c = scan_back chs' c"
  by (induction c) simp_all

lemma scan_volumes_agree:
  "\<forall>k < v. chapters (A ! k) = chapters (B ! k) \<Longrightarrow> scan_volumes A v = scan_volumes B v"
  by (induction v) (auto split: option.splits)

lemma find_prev_agree:
  "agree (vi, ci) A B \<Longrightarrow> find_prev_normal_chapter A vi ci = find_prev_normal_chapter B vi ci"
  using scan_back_agree [of ci "chapters (A ! vi)" "chapters (B ! vi)"] scan_volumes_agree [of vi A B]
  by (auto simp: find_prev_normal_chapter_def agree_def split: option.splits)

lemma follow_nextpage_static_world:
  "snd (follow_nextpage uj scripts (static page) base aid cb n V u w) = w"
  by (induction n arbitrary: V u)
     (auto simp: static_def Let_def split: sum.splits option.splits prod.splits)

lemma follow_nextpage_static_result:
  "fst (follow_nextpage uj scripts (static page) base aid cb n V u w) =
   fst (follow_nextpage uj scripts (static page) base aid cb n V u w')"
  by (induction n arbitrary: V u)
     (auto simp: static_def Let_def split: sum.splits option.splits prod.splits)

lemma resolve_static_world:
  "snd (resolve_next_chapter_url uj scripts (static page) base m u w) = w"
  by (simp add: resolve_next_chapter_url_def follow_nextpage_static_world split: option.splits prod.splits)

lemma resolve_static_result:
  "fst (resolve_next_chapter_url uj scripts (static page) base m u w) =
   fst (resolve_next_chapter_url uj scripts (static page) base m u w')"
  using follow_nextpage_static_result [of uj scripts page base _ _ "nat m" "{}" u w w']
  by (auto simp: resolve_next_chapter_url_def split: option.splits prod.splits)

lemma resolution_agree:
  "agree p A B \<Longrightarrow>
   resolution uj scripts (static page) base A p w = resolution uj scripts (static page) base B p w'"
proof -
  assume a: "agree p A B"
  have ch: "chapter_at A p = chapter_at B p" using a by (simp add: agree_def chapter_at_def)
  have fp: "find_prev_normal_chapter A (fst p) (snd p) = find_prev_normal_chapter B (fst p) (snd p)"
    using find_prev_agree [of "fst p" "snd p" A B] a by simp
  show ?thesis
    unfolding resolution_def ch fp
    using resolve_static_result [of uj scripts page base 20 _ w w']
    by (simp split: option.splits prod.splits)
qed

lemma resolve_static_worldD:
  "resolve_next_chapter_url uj scripts (static page) base m u w = (r, w') \<Longrightarrow> w' = w"
  by (metis resolve_static_world snd_conv)

text \<open>
  The loop body does what \<open>resolution\<close> decides, for every downloader: what it raises,
  and the chapter it leaves at its position.
\<close>

lemma resolve_at_outcome:
  "fst (resolve_at uj scripts dl base p (A, w)) =
     (case resolution uj scripts dl base A p w of Inl e \<Rightarrow> Inl e | Inr r \<Rightarrow> Inr ())"
  unfolding resolve_at_def resolve_chapter_def resolution_def
  by (auto simp: Let_def chapter_at_def split: option.splits prod.splits sum.splits)


lemma resolve_at_static:
  "resolve_at uj scripts (static page) base p (A, w) =
     (case resolution uj scripts (static page) base A p w of
        Inl e \<Rightarrow> (Inl e, A, w)
      | Inr None \<Rightarrow> (Inr (), A, w)
      | Inr (Some r) \<Rightarrow> (Inr (), set_chapter A (fst p) (snd p) (mark_resolved r (chapter_at A p)), w))"
  unfolding resolve_at_def resolve_chapter_def resolution_def
  by (auto simp: Let_def chapter_at_def split: option.splits prod.splits sum.splits
           dest: resolve_static_worldD)

lemma agree_set_chapter:
  assumes "pos_less p q"
  shows "agree p A (set_chapter A (fst q) (snd q) ch)"
proof (cases "fst q < length A")
  case False
  then have "set_chapter A (fst q) (snd q) ch = A"
    unfolding set_chapter_def by (simp add: list_update_beyond)
  then show ?thesis by simp
next
  case True
  define v' where "v' = (A ! fst q)\<lparr>chapters := (chapters (A ! fst q))[snd q := ch]\<rparr>"
  have sc: "set_chapter A (fst q) (snd q) ch = A[fst q := v']"
    by (simp add: set_chapter_def v'_def)
  have 1: "chapters (A[fst q := v'] ! k) = chapters (A ! k)" if "k < fst p" for k
  proof -
    from that assms have "k \<noteq> fst q" by (auto simp: pos_less_def)
    then show ?thesis by simp
  qed
  have 2: "chapters (A[fst q := v'] ! fst p) ! c = chapters (A ! fst p) ! c" if "c \<le> snd p" for c
  proof (cases "fst p = fst q")
    case False
    then show ?thesis by simp
  next
    case eq: True
    with assms that have "c \<noteq> snd q" by (auto simp: pos_less_def)
    then show ?thesis using True eq by (simp add: v'_def)
  qed
  show ?thesis unfolding sc agree_def using 1 2 by simp
qed

lemma resolve_at_agree:
  "pos_less p q \<Longrightarrow> agree p (fst st) (fst (snd (resolve_at uj scripts dl base q st)))"
  using resolve_chapter_cases [of uj scripts dl base "fst q" "snd q" st] agree_set_chapter [of p q "fst st"]
  unfolding resolve_at_def by (metis agree_refl)

lemma for_each_resolve_at_agree:
  "\<forall>q \<in> set ps. pos_less p q \<Longrightarrow>
   agree p (fst st) (fst (snd (for_each (resolve_at uj scripts dl base) ps st)))"
  by (rule for_each_rel [where R = "\<lambda>a b. agree p (fst a) (fst b)"])
     (auto simp: resolve_at_agree intro: agree_trans)

lemma for_each_resolve_at_static_world:
  "snd (snd (for_each (resolve_at uj scripts (static page) base) ps (A, w))) = w"
proof -
  have "snd (A, w) = snd (snd (for_each (resolve_at uj scripts (static page) base) ps (A, w)))"
    by (rule for_each_rel [where R = "\<lambda>a b. snd a = snd b"])
       (auto simp: resolve_at_static split: sum.splits option.splits prod.splits)
  then show ?thesis by simp
qed

lemma resolve_at_static_twice:
  assumes "in_shape (shape A) p"
    and "resolution uj scripts (static page) base A p w = Inr x"
  shows "resolution uj scripts (static page) base
           (fst (snd (resolve_at uj scripts (static page) base p (A, w)))) p w' = Inr None"
proof (cases x)
  case None
  then have "resolution uj scripts (static page) base A p w' = Inr None"
    using resolution_agree [of p A A uj scripts page base w w'] assms(2) by simp
  with None assms(2) show ?thesis by (simp add: resolve_at_static)
next
  case (Some r)
  then show ?thesis
    using assms by (simp add: resolve_at_static resolution_def chapter_at_set_chapter)
qed

lemma for_each_resolve_at_idem:
  "sorted_wrt pos_less ps \<Longrightarrow> \<forall>p \<in> set ps. in_shape (shape A) p \<Longrightarrow>
   for_each (resolve_at uj scripts (static page) base) ps
     (snd (for_each (resolve_at uj scripts (static page) base) ps (A, w))) =
   for_each (resolve_at uj scripts (static page) base) ps (A, w)"
proof (induction ps arbitrary: A)
  case Nil
  show ?case by simp
next
  case (Cons p ps)
  let ?R = "resolve_at uj scripts (static page) base"
  show ?case
  proof (cases "resolution uj scripts (static page) base A p w")
    case (Inl e)
    then have "?R p (A, w) = (Inl e, A, w)" by (simp add: resolve_at_static)
    then show ?thesis by simp
  next
    case (Inr x)
    define A1 where "A1 = fst (snd (?R p (A, w)))"
    have st1: "?R p (A, w) = (Inr (), A1, w)"
      using Inr by (simp add: A1_def resolve_at_static split: option.splits)
    define F where "F = fst (snd (for_each ?R ps (A1, w)))"
    define y where "y = fst (for_each ?R ps (A1, w))"
    have stF: "for_each ?R ps (A1, w) = (y, F, w)"
      using for_each_resolve_at_static_world [of uj scripts page base ps A1 w]
      by (simp add: F_def y_def prod_eq_iff)
    have sh1: "shape A1 = shape A"
      using shape_resolve_chapter [of uj scripts "static page" base "fst p" "snd p" "(A, w)"]
      by (simp add: A1_def resolve_at_def)
    have ag: "agree p A1 F"
      using for_each_resolve_at_agree [of ps p "(A1, w)" uj scripts "static page" base] Cons.prems(1)
      by (simp add: F_def)
    have "resolution uj scripts (static page) base A1 p w = Inr None"
      using resolve_at_static_twice [of A p uj scripts page base w x w] Cons.prems(2) Inr
      by (simp add: A1_def)
    then have "resolution uj scripts (static page) base F p w = Inr None"
      using resolution_agree [OF ag, of uj scripts page base w w] by simp
    then have again: "?R p (F, w) = (Inr (), F, w)" by (simp add: resolve_at_static)
    have "for_each ?R ps (snd (for_each ?R ps (A1, w))) = for_each ?R ps (A1, w)"
      using Cons.IH [of A1] Cons.prems sh1 by simp
    then show ?thesis by (simp add: st1 stF again)
  qed
qed

lemma upt_4: "[0..<Suc (Suc (Suc (Suc 0)))] = [0, Suc 0, Suc (Suc 0), Suc (Suc (Suc 0))]"
  by (simp add: upt_rec)

lemma resolve_all_flat:
  "resolve_all_special_chapters uj scripts dl base book w =
     (fst (for_each (resolve_at uj scripts dl base) (positions (shape (volumes book))) (volumes book, w)),
      book\<lparr>volumes := fst (snd (for_each (resolve_at uj scripts dl base) (positions (shape (volumes book))) (volumes book, w)))\<rparr>,
      snd (snd (for_each (resolve_at uj scripts dl base) (positions (shape (volumes book))) (volumes book, w))))"
  by (simp add: resolve_all_special_chapters_def resolve_volumes_flat split: prod.splits)



lemma for_each_resolve_at_resolved:
  "\<forall>p \<in> set ps. \<not> needs_resolve (chapter_at A p) \<Longrightarrow>
   for_each (resolve_at uj scripts dl base) ps (A, w) = (Inr (), A, w)"
  by (induction ps) (simp_all add: resolve_at_def resolve_chapter_def chapter_at_def)

lemma chapter_progress_original_url:
  assumes "chapter_progress ch ch'"
  shows "original_url ch' =
           (if needs_resolve ch \<and> \<not> needs_resolve ch' then Some (url ch) else original_url ch)"
proof (cases "ch' = ch")
  case True
  then show ?thesis by simp
next
  case False
  with assms obtain r where "needs_resolve ch" "ch' = mark_resolved r ch"
    unfolding chapter_progress_def by blast
  then show ?thesis by (simp add: mark_resolved_def)
qed

subsection \<open>Cascading resolution\<close>

lemma resolve_chapter_after_resolved:
  assumes "vi < length vols" and "Suc ci < length (chapters (vols ! vi))"
    and "\<not> needs_resolve (chapters (vols ! vi) ! ci)"
    and "url (chapters (vols ! vi) ! ci) \<noteq> []"
    and "url (chapters (vols ! vi) ! ci) \<noteq> ''javascript:cid(0)''"
    and "needs_resolve (chapters (vols ! vi) ! Suc ci)"
    and "resolve_next_chapter_url uj scripts dl base 20 (url (chapters (vols ! vi) ! ci)) w = (Inr (Some r), w')"
    and "r \<noteq> []"
  shows "resolve_chapter uj scripts dl base vi (Suc ci) (vols, w) =
           (Inr (), set_chapter vols vi (Suc ci) (mark_resolved r (chapters (vols ! vi) ! Suc ci)), w')"
  using assms by (simp add: resolve_chapter_def find_prev_normal_chapter_def)

lemma chapters_set_chapter:
  assumes "vi < length vols"
  shows "chapters (set_chapter vols vi ci ch ! vi) = (chapters (vols ! vi))[ci := ch]"
  using assms by (simp add: set_chapter_def)

lemma cascade_steps:
  assumes vi: "vi < length vols" and ci: "ci + 3 < length (chapters (vols ! vi))"
    and at: "chapters (vols ! vi) ! ci = c0" "chapters (vols ! vi) ! (ci + 1) = c1"
        "chapters (vols ! vi) ! (ci + 2) = c2" "chapters (vols ! vi) ! (ci + 3) = c3"
    and c0: "\<not> needs_resolve c0" "url c0 \<noteq> []" "url c0 \<noteq> ''javascript:cid(0)''"
    and c123: "needs_resolve c1" "needs_resolve c2" "needs_resolve c3"
    and r1: "resolve_next_chapter_url uj scripts dl base 20 (url c0) w0 = (Inr (Some u1), w1)"
    and r2: "resolve_next_chapter_url uj scripts dl base 20 u1 w1 = (Inr (Some u2), w2)"
    and r3: "resolve_next_chapter_url uj scripts dl base 20 u2 w2 = (Inr (Some u3), w3)"
    and u: "u1 \<noteq> []" "u1 \<noteq> ''javascript:cid(0)''" "u2 \<noteq> []" "u2 \<noteq> ''javascript:cid(0)''" "u3 \<noteq> []"
  shows "for_each (resolve_chapter uj scripts dl base vi) [ci + 1, ci + 2, ci + 3] (vols, w0) =
           (Inr (), set_chapter (set_chapter (set_chapter vols vi (ci + 1) (mark_resolved u1 c1))
               vi (ci + 2) (mark_resolved u2 c2)) vi (ci + 3) (mark_resolved u3 c3), w3)"
proof -
  have n: "ci + 1 = Suc ci" "ci + 2 = Suc (Suc ci)" "ci + 3 = Suc (Suc (Suc ci))" by simp_all
  note at = at [unfolded n] and ci = ci [unfolded n]
  define A1 where "A1 = set_chapter vols vi (Suc ci) (mark_resolved u1 c1)"
  define A2 where "A2 = set_chapter A1 vi (Suc (Suc ci)) (mark_resolved u2 c2)"
  have s1: "resolve_chapter uj scripts dl base vi (Suc ci) (vols, w0) = (Inr (), A1, w1)"
    using resolve_chapter_after_resolved [of vi vols ci uj scripts dl base w0 u1 w1]
      vi ci at c0 c123 r1 u by (simp add: A1_def)
  have l1: "vi < length A1" using vi by (simp add: A1_def)
  have ch1: "chapters (A1 ! vi) = (chapters (vols ! vi))[Suc ci := mark_resolved u1 c1]"
    using vi by (simp add: A1_def chapters_set_chapter)
  have s2: "resolve_chapter uj scripts dl base vi (Suc (Suc ci)) (A1, w1) = (Inr (), A2, w2)"
    using resolve_chapter_after_resolved [of vi A1 "Suc ci" uj scripts dl base w1 u2 w2]
      l1 ci at c123 r2 u by (simp add: ch1 A2_def mark_resolved_def)
  have l2: "vi < length A2" using l1 by (simp add: A2_def)
  have ch2: "chapters (A2 ! vi) =
      (chapters (vols ! vi))[Suc ci := mark_resolved u1 c1, Suc (Suc ci) := mark_resolved u2 c2]"
    using l1 by (simp add: A2_def chapters_set_chapter ch1)
  have s3: "resolve_chapter uj scripts dl base vi (Suc (Suc (Suc ci))) (A2, w2) =
      (Inr (), set_chapter A2 vi (Suc (Suc (Suc ci))) (mark_resolved u3 c3), w3)"
    using resolve_chapter_after_resolved [of vi A2 "Suc (Suc ci)" uj scripts dl base w2 u3 w3]
      l2 ci at c123 r3 u by (simp add: ch2 mark_resolved_def)
  show ?thesis
    unfolding n using s1 s2 s3 by (simp add: A1_def A2_def)
qed

text \<open>
  Claim C6: in a volume whose chapters are a resolved chapter \<open>c0\<close> followed by three
  chapters \<open>c1\<close>, \<open>c2\<close>, \<open>c3\<close> that need resolving, let the resolution from the address
  of \<open>c0\<close> give \<open>u1\<close>, the one from \<open>u1\<close> give \<open>u2\<close> and the one from \<open>u2\<close> give
  \<open>u3\<close>, in this order of downloads. Then one run of
  \<^verbatim>\<open>resolve_all_special_chapters\<close> resolves the three chapters to \<open>u1\<close>, \<open>u2\<close>
  and \<open>u3\<close>: the backward search for \<open>c2\<close> finds \<open>c1\<close> as the run has just left it,
  and the search for \<open>c3\<close> finds \<open>c2\<close> so. The same holds wherever the four
  chapters stand in a row in a volume of a book: the three iterations of the inner loop
  that follow \<open>c0\<close> resolve \<open>c1\<close>, \<open>c2\<close> and \<open>c3\<close>. Nothing is raised.
\<close>

theorem resolve_all_cascade:
  assumes c0: "\<not> needs_resolve c0" "url c0 \<noteq> []" "url c0 \<noteq> ''javascript:cid(0)''"
    and c123: "needs_resolve c1" "needs_resolve c2" "needs_resolve c3"
    and r1: "resolve_next_chapter_url uj scripts dl base 20 (url c0) w0 = (Inr (Some u1), w1)"
    and r2: "resolve_next_chapter_url uj scripts dl base 20 u1 w1 = (Inr (Some u2), w2)"
    and r3: "resolve_next_chapter_url uj scripts dl base 20 u2 w2 = (Inr (Some u3), w3)"
    and u: "u1 \<noteq> []" "u1 \<noteq> ''javascript:cid(0)''" "u2 \<noteq> []" "u2 \<noteq> ''javascript:cid(0)''" "u3 \<noteq> []"
  shows "resolve_all_special_chapters uj scripts dl base
           \<lparr>book_id = b, volumes = [\<lparr>volume_name = n, chapters = [c0, c1, c2, c3]\<rparr>]\<rparr> w0 =
         (Inr (), \<lparr>book_id = b, volumes = [\<lparr>volume_name = n, chapters =
             [c0, mark_resolved u1 c1, mark_resolved u2 c2, mark_resolved u3 c3]\<rparr>]\<rparr>, w3) \<and>
         find_prev_normal_chapter [\<lparr>volume_name = n, chapters = [c0, mark_resolved u1 c1, c2, c3]\<rparr>] 0 2 =
           Some (0, 1, mark_resolved u1 c1) \<and>
         find_prev_normal_chapter
             [\<lparr>volume_name = n, chapters = [c0, mark_resolved u1 c1, mark_resolved u2 c2, c3]\<rparr>] 0 3 =
           Some (0, 2, mark_resolved u2 c2) \<and>
         (\<forall>vols vi ci.
            vi < length vols \<and> ci + 3 < length (chapters (vols ! vi)) \<and>
            chapters (vols ! vi) ! ci = c0 \<and> chapters (vols ! vi) ! (ci + 1) = c1 \<and>
            chapters (vols ! vi) ! (ci + 2) = c2 \<and> chapters (vols ! vi) ! (ci + 3) = c3 \<longrightarrow>
            for_each (resolve_chapter uj scripts dl base vi) [ci + 1, ci + 2, ci + 3] (vols, w0) =
              (Inr (), set_chapter (set_chapter (set_chapter vols vi (ci + 1) (mark_resolved u1 c1))
                  vi (ci + 2) (mark_resolved u2 c2)) vi (ci + 3) (mark_resolved u3 c3), w3))"
proof -
  let ?v0 = "[\<lparr>volume_name = n, chapters = [c0, c1, c2, c3]\<rparr>]"
  let ?v1 = "[\<lparr>volume_name = n, chapters = [c0, mark_resolved u1 c1, c2, c3]\<rparr>]"
  let ?v2 = "[\<lparr>volume_name = n, chapters = [c0, mark_resolved u1 c1, mark_resolved u2 c2, c3]\<rparr>]"
  let ?v3 = "[\<lparr>volume_name = n, chapters = [c0, mark_resolved u1 c1, mark_resolved u2 c2, mark_resolved u3 c3]\<rparr>]"
  have p2: "find_prev_normal_chapter ?v1 0 2 = Some (0, 1, mark_resolved u1 c1)"
    by (simp add: find_prev_normal_chapter_def numeral_2_eq_2)
  have p3: "find_prev_normal_chapter ?v2 0 3 = Some (0, 2, mark_resolved u2 c2)"
    by (simp add: find_prev_normal_chapter_def numeral_3_eq_3 numeral_2_eq_2)
  have s0: "resolve_chapter uj scripts dl base 0 0 (?v0, w0) = (Inr (), ?v0, w0)"
    using c0 by (simp add: resolve_chapter_def)
  have s1: "resolve_chapter uj scripts dl base 0 (Suc 0) (?v0, w0) = (Inr (), ?v1, w1)"
    using c0 c123 r1 u by (simp add: resolve_chapter_def find_prev_normal_chapter_def set_chapter_def)
  have s2: "resolve_chapter uj scripts dl base 0 (Suc (Suc 0)) (?v1, w1) = (Inr (), ?v2, w2)"
    using c0 c123 r2 u
    by (simp add: resolve_chapter_def find_prev_normal_chapter_def set_chapter_def mark_resolved_def)
  have s3: "resolve_chapter uj scripts dl base 0 (Suc (Suc (Suc 0))) (?v2, w2) = (Inr (), ?v3, w3)"
    using c0 c123 r3 u
    by (simp add: resolve_chapter_def find_prev_normal_chapter_def set_chapter_def mark_resolved_def)
  have "resolve_volume uj scripts dl base 0 (?v0, w0) = (Inr (), ?v3, w3)"
    by (simp add: resolve_volume_def upt_4 s0 s1 s2 s3)
  then have "resolve_all_special_chapters uj scripts dl base \<lparr>book_id = b, volumes = ?v0\<rparr> w0 =
      (Inr (), \<lparr>book_id = b, volumes = ?v3\<rparr>, w3)"
    by (simp add: resolve_all_special_chapters_def resolve_volumes_def)
  moreover have "\<forall>vols vi ci.
            vi < length vols \<and> ci + 3 < length (chapters (vols ! vi)) \<and>
            chapters (vols ! vi) ! ci = c0 \<and> chapters (vols ! vi) ! (ci + 1) = c1 \<and>
            chapters (vols ! vi) ! (ci + 2) = c2 \<and> chapters (vols ! vi) ! (ci + 3) = c3 \<longrightarrow>
            for_each (resolve_chapter uj scripts dl base vi) [ci + 1, ci + 2, ci + 3] (vols, w0) =
              (Inr (), set_chapter (set_chapter (set_chapter vols vi (ci + 1) (mark_resolved u1 c1))
                  vi (ci + 2) (mark_resolved u2 c2)) vi (ci + 3) (mark_resolved u3 c3), w3)"
    using cascade_steps [OF _ _ _ _ _ _ c0 c123 r1 r2 r3 u] by blast
  ultimately show ?thesis using p2 p3 by blast
qed

text \<open>
  On the site of book 4519 the chapter listed with its address has two pages and the
  chain crosses three chapter boundaries: the three placeholders that follow it get the
  addresses of chapters 262082, 262083 and 262084 in one run.
\<close>

theorem resolve_all_cascade_witness:
  "resolve_all_special_chapters site_join whole_page (static site4519) ''https://www.linovelib.com''
       cascade_book () =
     (Inr (), \<lparr>book_id = ''4519'',
       volumes = [\<lparr>volume_name = ''Volume 1'',
                   chapters =
                     [listed_chapter 0 ''Chapter 1'' ''https://www.linovelib.com/novel/4519/262081.html'',
                      mark_resolved ''https://www.linovelib.com/novel/4519/262082.html'' (placeholder_chapter 1 ''Chapter 2''),
                      mark_resolved ''https://www.linovelib.com/novel/4519/262083.html'' (placeholder_chapter 2 ''Chapter 3''),
                      mark_resolved ''https://www.linovelib.com/novel/4519/262084.html'' (placeholder_chapter 3 ''Chapter 4'')]\<rparr>]\<rparr>,
      ())"
proof -
  let ?c0 = "listed_chapter 0 ''Chapter 1'' ''https://www.linovelib.com/novel/4519/262081.html''"
  have c0: "\<not> needs_resolve ?c0" "url ?c0 \<noteq> []" "url ?c0 \<noteq> ''javascript:cid(0)''"
    by (simp_all add: listed_chapter_def)
  have c123: "needs_resolve (placeholder_chapter 1 ''Chapter 2'')"
    "needs_resolve (placeholder_chapter 2 ''Chapter 3'')"
    "needs_resolve (placeholder_chapter 3 ''Chapter 4'')"
    by (simp_all add: placeholder_chapter_def)
  have r1: "resolve_next_chapter_url site_join whole_page (static site4519) ''https://www.linovelib.com'' 20
              (url ?c0) () = (Inr (Some ''https://www.linovelib.com/novel/4519/262082.html''), ())"
    by code_simp
  have r2: "resolve_next_chapter_url site_join whole_page (static site4519) ''https://www.linovelib.com'' 20
              ''https://www.linovelib.com/novel/4519/262082.html'' () =
            (Inr (Some ''https://www.linovelib.com/novel/4519/262083.html''), ())"
    by code_simp
  have r3: "resolve_next_chapter_url site_join whole_page (static site4519) ''https://www.linovelib.com'' 20
              ''https://www.linovelib.com/novel/4519/262083.html'' () =
            (Inr (Some ''https://www.linovelib.com/novel/4519/262084.html''), ())"
    by code_simp
  have u: "''https://www.linovelib.com/novel/4519/262082.html'' \<noteq> []"
    "''https://www.linovelib.com/novel/4519/262082.html'' \<noteq> ''javascript:cid(0)''"
    "''https://www.linovelib.com/novel/4519/262083.html'' \<noteq> []"
    "''https://www.linovelib.com/novel/4519/262083.html'' \<noteq> ''javascript:cid(0)''"
    "''https://www.linovelib.com/novel/4519/262084.html'' \<noteq> []"
    by simp_all
  from resolve_all_cascade [OF c0 c123 r1 r2 r3 u, of "''4519''" "''Volume 1''"]
  have "resolve_all_special_chapters site_join whole_page (static site4519) ''https://www.linovelib.com''
          \<lparr>book_id = ''4519'', volumes = [\<lparr>volume_name = ''Volume 1'', chapters =
             [?c0, placeholder_chapter 1 ''Chapter 2'', placeholder_chapter 2 ''Chapter 3'',
              placeholder_chapter 3 ''Chapter 4'']\<rparr>]\<rparr> () =
        (Inr (), \<lparr>book_id = ''4519'', volumes = [\<lparr>volume_name = ''Volume 1'', chapters =
             [?c0, mark_resolved ''https://www.linovelib.com/novel/4519/262082.html'' (placeholder_chapter 1 ''Chapter 2''),
              mark_resolved ''https://www.linovelib.com/novel/4519/262083.html'' (placeholder_chapter 2 ''Chapter 3''),
              mark_resolved ''https://www.linovelib.com/novel/4519/262084.html'' (placeholder_chapter 3 ''Chapter 4'')]\<rparr>]\<rparr>, ())"
    by blast
  then show ?thesis by (simp add: cascade_book_def)
qed

subsection \<open>Failures are skipped\<close>

lemma headless_run:
  "resolve_all_special_chapters site_join whole_page (static site4519) ''https://www.linovelib.com''
       headless_book () =
     (Inr (), \<lparr>book_id = ''4519'',
       volumes = [\<lparr>volume_name = ''Volume 1'',
                   chapters = [placeholder_chapter 0 ''Prologue'',
                               listed_chapter 1 ''Chapter 1'' ''https://www.linovelib.com/novel/4519/262081.html'']\<rparr>,
                  \<lparr>volume_name = ''Volume 2'',
                   chapters = [mark_resolved ''https://www.linovelib.com/novel/4519/262082.html''
                                 (placeholder_chapter 2 ''Chapter 2'')]\<rparr>]\<rparr>,
      ())"
  by code_simp




subsection \<open>A second run\<close>

text \<open>
  Claim C8, as stated: a second run on the structure that a first run produced leaves it
  unchanged. It fails when the first run left a placeholder and the downloader answers
  differently the second time. Here the downloader has one try and the network refuses
  the first connection: the first run leaves the book as it was, the second run on its
  result resolves the placeholder.
\<close>

theorem resolve_all_second_run_changes:
  "fst (snd (resolve_all_special_chapters site_join whole_page (download site_join outage_net (with_retries 1))
          ''https://www.linovelib.com'' small_book fresh)) = small_book \<and>
   volumes (fst (snd (resolve_all_special_chapters site_join whole_page (download site_join outage_net (with_retries 1))
          ''https://www.linovelib.com''
          (fst (snd (resolve_all_special_chapters site_join whole_page (download site_join outage_net (with_retries 1))
                  ''https://www.linovelib.com'' small_book fresh)))
          (snd (snd (resolve_all_special_chapters site_join whole_page (download site_join outage_net (with_retries 1))
                  ''https://www.linovelib.com'' small_book fresh)))))) =
     [\<lparr>volume_name = ''Volume 1'',
       chapters = [listed_chapter 0 ''Chapter 1'' ''https://www.linovelib.com/novel/4519/262081.html'',
                   mark_resolved ''https://www.linovelib.com/novel/4519/262082.html''
                     (placeholder_chapter 1 ''Chapter 2'')]\<rparr>] \<and>
   needs_resolve (chapters (volumes small_book ! 0) ! 1) \<and>
   \<not> needs_resolve (mark_resolved ''https://www.linovelib.com/novel/4519/262082.html''
                       (placeholder_chapter 1 ''Chapter 2''))"
  by code_simp

text \<open>
  Claim C8, amended: a chapter with \<^verbatim>\<open>needs_resolve = False\<close> is skipped: the
  loop body at its position downloads nothing, changes nothing and raises nothing, and
  no run changes it. So a run on a book \<open>resolved\<close> in which no chapter needs resolving
  changes neither the book nor the state of the downloader, and raises nothing; and with
  a downloader whose answers depend on the address alone, a second run on the result of a
  first run ends as the first did and changes nothing, placeholders that the first run
  left included.
\<close>

theorem resolve_all_second_run:
  "(\<not> needs_resolve (chapters (vols ! vi) ! ci) \<longrightarrow>
      resolve_chapter uj scripts dl base vi ci (vols, w) = (Inr (), vols, w)) \<and>
   (\<forall>vj < length (volumes book). \<forall>cj < length (chapters (volumes book ! vj)).
      \<not> needs_resolve (chapters (volumes book ! vj) ! cj) \<longrightarrow>
      chapters (volumes (fst (snd (resolve_all_special_chapters uj scripts dl base book w))) ! vj) ! cj =
        chapters (volumes book ! vj) ! cj) \<and>
   ((\<forall>vj < length (volumes resolved). \<forall>cj < length (chapters (volumes resolved ! vj)).
       \<not> needs_resolve (chapters (volumes resolved ! vj) ! cj)) \<longrightarrow>
      resolve_all_special_chapters uj scripts dl base resolved w = (Inr (), resolved, w)) \<and>
   resolve_all_special_chapters uj scripts (static page) base
       (fst (snd (resolve_all_special_chapters uj scripts (static page) base book w)))
       (snd (snd (resolve_all_special_chapters uj scripts (static page) base book w))) =
     resolve_all_special_chapters uj scripts (static page) base book w"
proof (intro conjI)
  show "\<not> needs_resolve (chapters (vols ! vi) ! ci) \<longrightarrow>
      resolve_chapter uj scripts dl base vi ci (vols, w) = (Inr (), vols, w)"
    by (simp add: resolve_chapter_def)
next
  let ?ps = "positions (shape (volumes book))"
  show "\<forall>vj < length (volumes book). \<forall>cj < length (chapters (volumes book ! vj)).
      \<not> needs_resolve (chapters (volumes book ! vj) ! cj) \<longrightarrow>
      chapters (volumes (fst (snd (resolve_all_special_chapters uj scripts dl base book w))) ! vj) ! cj =
        chapters (volumes book ! vj) ! cj"
  proof (intro allI impI)
    fix vj cj
    assume "\<not> needs_resolve (chapters (volumes book ! vj) ! cj)"
    then show "chapters (volumes (fst (snd (resolve_all_special_chapters uj scripts dl base book w))) ! vj) ! cj =
        chapters (volumes book ! vj) ! cj"
      using for_each_resolve_at_progress [of "(volumes book, w)" "(vj, cj)" uj scripts dl base ?ps]
      by (simp add: resolve_all_flat chapter_at_def chapter_progress_def)
  qed
next
  let ?ps = "positions (shape (volumes resolved))"
  show "(\<forall>vj < length (volumes resolved). \<forall>cj < length (chapters (volumes resolved ! vj)).
       \<not> needs_resolve (chapters (volumes resolved ! vj) ! cj)) \<longrightarrow>
      resolve_all_special_chapters uj scripts dl base resolved w = (Inr (), resolved, w)"
  proof
    assume all: "\<forall>vj < length (volumes resolved). \<forall>cj < length (chapters (volumes resolved ! vj)).
       \<not> needs_resolve (chapters (volumes resolved ! vj) ! cj)"
    have "\<forall>p \<in> set ?ps. \<not> needs_resolve (chapter_at (volumes resolved) p)"
    proof
      fix p assume "p \<in> set ?ps"
      then have "in_shape (shape (volumes resolved)) p" by (rule positions_in_shape)
      then show "\<not> needs_resolve (chapter_at (volumes resolved) p)"
        using all by (auto simp: in_shape_def shape_def chapter_at_def)
    qed
    then have "for_each (resolve_at uj scripts dl base) ?ps (volumes resolved, w) = (Inr (), volumes resolved, w)"
      by (rule for_each_resolve_at_resolved)
    then show "resolve_all_special_chapters uj scripts dl base resolved w = (Inr (), resolved, w)"
      by (simp add: resolve_all_flat)
  qed
next
  let ?ps = "positions (shape (volumes book))"
  let ?R = "resolve_at uj scripts (static page) base"
  define F where "F = fst (snd (for_each ?R ?ps (volumes book, w)))"
  define y where "y = fst (for_each ?R ?ps (volumes book, w))"
  have w1: "snd (snd (for_each ?R ?ps (volumes book, w))) = w"
    by (rule for_each_resolve_at_static_world)
  have stF: "for_each ?R ?ps (volumes book, w) = (y, F, w)"
    using w1 by (simp add: F_def y_def prod_eq_iff)
  have shF: "shape F = shape (volumes book)"
    unfolding F_def by simp
  have "for_each ?R ?ps (snd (for_each ?R ?ps (volumes book, w))) = for_each ?R ?ps (volumes book, w)"
    using for_each_resolve_at_idem [OF sorted_positions, of "shape (volumes book)" "volumes book" uj scripts page base w]
      positions_in_shape by blast
  then have again: "for_each ?R ?ps (F, w) = (y, F, w)" by (simp add: stF)
  have first: "resolve_all_special_chapters uj scripts (static page) base book w = (y, book\<lparr>volumes := F\<rparr>, w)"
    by (simp add: resolve_all_flat stF)
  have "resolve_all_special_chapters uj scripts (static page) base (book\<lparr>volumes := F\<rparr>) w = (y, book\<lparr>volumes := F\<rparr>, w)"
    by (simp add: resolve_all_flat shF again)
  then show "resolve_all_special_chapters uj scripts (static page) base
       (fst (snd (resolve_all_special_chapters uj scripts (static page) base book w)))
       (snd (snd (resolve_all_special_chapters uj scripts (static page) base book w))) =
     resolve_all_special_chapters uj scripts (static page) base book w"
    by (simp add: first)
qed

text \<open>
  On the site of book 4519, whose answers depend on the address alone: the listed chapter
  of the first volume is skipped, the book that the cascade produced is left alone, and
  the second run on the result of the first changes nothing, although the prologue
  still needs resolving.
\<close>

theorem resolve_all_second_run_witness:
  "resolve_chapter site_join whole_page (static site4519) ''https://www.linovelib.com'' 0 1
       (volumes headless_book, ()) = (Inr (), volumes headless_book, ()) \<and>
   resolve_all_special_chapters site_join whole_page (static site4519) ''https://www.linovelib.com''
       (small_book\<lparr>volumes := [\<lparr>volume_name = ''Volume 1'',
           chapters = [listed_chapter 0 ''Chapter 1'' ''https://www.linovelib.com/novel/4519/262081.html'',
                       mark_resolved ''https://www.linovelib.com/novel/4519/262082.html''
                         (placeholder_chapter 1 ''Chapter 2'')]\<rparr>]\<rparr>) () =
     (Inr (), small_book\<lparr>volumes := [\<lparr>volume_name = ''Volume 1'',
           chapters = [listed_chapter 0 ''Chapter 1'' ''https://www.linovelib.com/novel/4519/262081.html'',
                       mark_resolved ''https://www.linovelib.com/novel/4519/262082.html''
                         (placeholder_chapter 1 ''Chapter 2'')]\<rparr>]\<rparr>, ()) \<and>
   resolve_all_special_chapters site_join whole_page (static site4519) ''https://www.linovelib.com''
       (fst (snd (resolve_all_special_chapters site_join whole_page (static site4519) ''https://www.linovelib.com''
               headless_book ())))
       (snd (snd (resolve_all_special_chapters site_join whole_page (static site4519) ''https://www.linovelib.com''
               headless_book ()))) =
     resolve_all_special_chapters site_join whole_page (static site4519) ''https://www.linovelib.com''
       headless_book () \<and>
   needs_resolve (chapters (volumes (fst (snd (resolve_all_special_chapters site_join whole_page (static site4519)
       ''https://www.linovelib.com'' headless_book ()))) ! 0) ! 0)"
proof -
  let ?fin = "small_book\<lparr>volumes := [\<lparr>volume_name = ''Volume 1'',
           chapters = [listed_chapter 0 ''Chapter 1'' ''https://www.linovelib.com/novel/4519/262081.html'',
                       mark_resolved ''https://www.linovelib.com/novel/4519/262082.html''
                         (placeholder_chapter 1 ''Chapter 2'')]\<rparr>]\<rparr>"
  note inst = resolve_all_second_run
      [of "volumes headless_book" 0 1 site_join whole_page "static site4519" "''https://www.linovelib.com''" "()"
          headless_book "?fin" site4519]
  have listed: "\<not> needs_resolve (chapters (volumes headless_book ! 0) ! 1)"
    by (simp add: headless_book_def listed_chapter_def)
  have alldone: "\<forall>vj < length (volumes ?fin). \<forall>cj < length (chapters (volumes ?fin ! vj)).
       \<not> needs_resolve (chapters (volumes ?fin ! vj) ! cj)"
    by (simp add: listed_chapter_def mark_resolved_def less_Suc_eq)
  have 1: "resolve_chapter site_join whole_page (static site4519) ''https://www.linovelib.com'' 0 1
       (volumes headless_book, ()) = (Inr (), volumes headless_book, ())"
    using inst listed by blast
  have 2: "resolve_all_special_chapters site_join whole_page (static site4519) ''https://www.linovelib.com''
       ?fin () = (Inr (), ?fin, ())"
    using inst alldone by blast
  have 3: "resolve_all_special_chapters site_join whole_page (static site4519) ''https://www.linovelib.com''
       (fst (snd (resolve_all_special_chapters site_join whole_page (static site4519) ''https://www.linovelib.com''
               headless_book ())))
       (snd (snd (resolve_all_special_chapters site_join whole_page (static site4519) ''https://www.linovelib.com''
               headless_book ()))) =
     resolve_all_special_chapters site_join whole_page (static site4519) ''https://www.linovelib.com''
       headless_book ()"
    using inst by blast
  have 4: "needs_resolve (chapters (volumes (fst (snd (resolve_all_special_chapters site_join whole_page (static site4519)
       ''https://www.linovelib.com'' headless_book ()))) ! 0) ! 0)"
    by (simp add: headless_run placeholder_chapter_def)
  from 1 2 3 4 show ?thesis by blast
qed

subsection \<open>The original address\<close>

lemma cascade_run:
  "resolve_all_special_chapters site_join whole_page (static site4519) ''https://www.linovelib.com''
       cascade_book () =
     (Inr (), \<lparr>book_id = ''4519'',
       volumes = [\<lparr>volume_name = ''Volume 1'',
                   chapters =
                     [listed_chapter 0 ''Chapter 1'' ''https://www.linovelib.com/novel/4519/262081.html'',
                      mark_resolved ''https://www.linovelib.com/novel/4519/262082.html'' (placeholder_chapter 1 ''Chapter 2''),
                      mark_resolved ''https://www.linovelib.com/novel/4519/262083.html'' (placeholder_chapter 2 ''Chapter 3''),
                      mark_resolved ''https://www.linovelib.com/novel/4519/262084.html'' (placeholder_chapter 3 ''Chapter 4'')]\<rparr>]\<rparr>,
      ())"
  by code_simp

text \<open>
  Claim C9: the loop body at a position writes \<^verbatim>\<open>original_url\<close> at this position
  only, and only when it resolves the chapter there, which then gets the value that
  \<^verbatim>\<open>url\<close> had before; and over a whole run, whatever the downloader and however
  the run ends, the
  \<^verbatim>\<open>original_url\<close> of a chapter that the run resolved is the \<^verbatim>\<open>url\<close> that the
  chapter had before the run, and the \<^verbatim>\<open>original_url\<close> of every other chapter is
  what it was: no later step of the run writes the field again.
\<close>

theorem original_url_written_once:
  "(\<forall>vj cj.
      original_url (chapter_at (fst (snd (resolve_chapter uj scripts dl base vi ci (vols, w)))) (vj, cj)) =
        (if (vj, cj) = (vi, ci) \<and> needs_resolve (chapter_at vols (vi, ci)) \<and>
            \<not> needs_resolve (chapter_at (fst (snd (resolve_chapter uj scripts dl base vi ci (vols, w)))) (vi, ci))
         then Some (url (chapter_at vols (vi, ci)))
         else original_url (chapter_at vols (vj, cj)))) \<and>
   (\<forall>vj < length (volumes book). \<forall>cj < length (chapters (volumes book ! vj)).
      original_url (chapters (volumes (fst (snd (resolve_all_special_chapters uj scripts dl base book w'))) ! vj) ! cj) =
        (if needs_resolve (chapters (volumes book ! vj) ! cj) \<and>
            \<not> needs_resolve (chapters (volumes (fst (snd (resolve_all_special_chapters uj scripts dl base book w'))) ! vj) ! cj)
         then Some (url (chapters (volumes book ! vj) ! cj))
         else original_url (chapters (volumes book ! vj) ! cj)))"
proof (intro conjI allI impI)
  fix vj cj
  let ?A = "fst (snd (resolve_chapter uj scripts dl base vi ci (vols, w)))"
  have prog: "chapter_progress (chapter_at vols (vj, cj)) (chapter_at ?A (vj, cj))"
    using resolve_at_progress [of "(vols, w)" "(vj, cj)" uj scripts dl base "(vi, ci)"]
    by (simp add: resolve_at_def)
  have frame: "(vj, cj) \<noteq> (vi, ci) \<Longrightarrow> chapter_at ?A (vj, cj) = chapter_at vols (vj, cj)"
    using resolve_at_frame [of "(vj, cj)" "(vi, ci)" uj scripts dl base "(vols, w)"]
    by (simp add: resolve_at_def)
  show "original_url (chapter_at ?A (vj, cj)) =
        (if (vj, cj) = (vi, ci) \<and> needs_resolve (chapter_at vols (vi, ci)) \<and>
            \<not> needs_resolve (chapter_at ?A (vi, ci))
         then Some (url (chapter_at vols (vi, ci)))
         else original_url (chapter_at vols (vj, cj)))"
  proof (cases "(vj, cj) = (vi, ci)")
    case False
    then show ?thesis using frame by auto
  next
    case True
    show ?thesis
      using chapter_progress_original_url [OF prog] True by simp
  qed
next
  fix vj cj
  let ?B = "volumes (fst (snd (resolve_all_special_chapters uj scripts dl base book w')))"
  have "chapter_progress (chapters (volumes book ! vj) ! cj) (chapters (?B ! vj) ! cj)"
    using for_each_resolve_at_progress [of "(volumes book, w')" "(vj, cj)" uj scripts dl base
            "positions (shape (volumes book))"]
    by (simp add: resolve_all_flat chapter_at_def)
  then show "original_url (chapters (?B ! vj) ! cj) =
        (if needs_resolve (chapters (volumes book ! vj) ! cj) \<and> \<not> needs_resolve (chapters (?B ! vj) ! cj)
         then Some (url (chapters (volumes book ! vj) ! cj))
         else original_url (chapters (volumes book ! vj) ! cj))"
    by (rule chapter_progress_original_url)
qed

text \<open>
  In the cascade on book 4519: the second chapter, resolved by the run, has the
  placeholder as its original address; the first chapter, listed with its address, has
  none.
\<close>

theorem original_url_written_once_witness:
  "original_url (chapters (volumes (fst (snd (resolve_all_special_chapters site_join whole_page (static site4519)
       ''https://www.linovelib.com'' cascade_book ()))) ! 0) ! 1) = Some ''javascript:cid(0)'' \<and>
   original_url (chapters (volumes (fst (snd (resolve_all_special_chapters site_join whole_page (static site4519)
       ''https://www.linovelib.com'' cascade_book ()))) ! 0) ! 0) = None"
proof -
  note inst = original_url_written_once
      [of site_join whole_page "static site4519" "''https://www.linovelib.com''" 0 0 "volumes cascade_book" "()"
          cascade_book "()"]
  have len: "(0::nat) < length (volumes cascade_book)"
    "1 < length (chapters (volumes cascade_book ! 0))" "0 < length (chapters (volumes cascade_book ! 0))"
    by (simp_all add: cascade_book_def)
  let ?after = "volumes (fst (snd (resolve_all_special_chapters site_join whole_page (static site4519)
       ''https://www.linovelib.com'' cascade_book ())))"
  have a: "original_url (chapters (?after ! 0) ! 1) =
        (if needs_resolve (chapters (volumes cascade_book ! 0) ! 1) \<and> \<not> needs_resolve (chapters (?after ! 0) ! 1)
         then Some (url (chapters (volumes cascade_book ! 0) ! 1))
         else original_url (chapters (volumes cascade_book ! 0) ! 1))"
    using inst len by blast
  have b: "original_url (chapters (?after ! 0) ! 0) =
        (if needs_resolve (chapters (volumes cascade_book ! 0) ! 0) \<and> \<not> needs_resolve (chapters (?after ! 0) ! 0)
         then Some (url (chapters (volumes cascade_book ! 0) ! 0))
         else original_url (chapters (volumes cascade_book ! 0) ! 0))"
    using inst len by blast
  have before: "needs_resolve (chapters (volumes cascade_book ! 0) ! 1)"
    "url (chapters (volumes cascade_book ! 0) ! 1) = ''javascript:cid(0)''"
    "\<not> needs_resolve (chapters (volumes cascade_book ! 0) ! 0)"
    "original_url (chapters (volumes cascade_book ! 0) ! 0) = None"
    by (simp_all add: cascade_book_def placeholder_chapter_def listed_chapter_def)
  have after: "\<not> needs_resolve (chapters (?after ! 0) ! 1)"
    by (simp add: cascade_run)
  show ?thesis
    using a b before after by simp
qed

end
